theory Spec2Isabelle
  imports Main "HOL-Library.AList"
begin

section \<open>Strings\<close>

text \<open>
  A JavaScript string is a sequence of UTF-16 code units. A code unit is modelled as a
  natural number, so that the combining-marks block U+0300 .. U+036F of
  \<^verbatim>\<open>stripDiacritics\<close> can be written down. Node type tags are plain ASCII and
  stay HOL strings.
\<close>

type_synonym ustring = "nat list"

definition ascii :: "string \<Rightarrow> ustring" where
  "ascii s = map of_char s"

text \<open>
  Number to string conversion, as performed by \<^verbatim>\<open>originalSlug + '-' + n\<close> on a
  non-negative integer counter: its decimal digits, most significant first.
\<close>

fun number_to_string :: "nat \<Rightarrow> ustring" where
  "number_to_string n =
     (if n < 10 then [48 + n] else number_to_string (n div 10) @ [48 + n mod 10])"

declare number_to_string.simps [simp del]

definition digits_value :: "ustring \<Rightarrow> nat" where
  "digits_value ds = foldl (\<lambda>a d. 10 * a + (d - 48)) 0 ds"

section \<open>The slugger (package github-slugger)\<close>

text \<open>
  The plugin imports \<^verbatim>\<open>Slugger\<close> from the package github-slugger, creates one with
  \<^verbatim>\<open>new Slugger()\<close> and calls its method \<^verbatim>\<open>slug\<close> once for each heading.
  The package is a dependency of the repository and no file of it; the definitions of
  this section and \<open>slug\<close>, \<open>Slugger_slug\<close> below follow the module of the package:
  \<^verbatim>\<open>
    slug (value, maintainCase) {
      const self = this
      let result = slug(value, maintainCase === true)
      const originalSlug = result
      while (own.call(self.occurrences, result)) {
        self.occurrences[originalSlug]++
        result = originalSlug + '-' + self.occurrences[originalSlug]
      }
      self.occurrences[result] = 0
      return result
    }
    reset () { this.occurrences = Object.create(null) }

    export function slug (value, maintainCase) {
      if (typeof value !== 'string') return ''
      if (!maintainCase) value = value.toLowerCase()
      return value.replace(regex, '').replace(/ /g, '-')
    }
  \<close>

  The occurrences object of a \<^verbatim>\<open>Slugger\<close>: own properties in insertion order, each
  a key with its counter. \<^verbatim>\<open>new Slugger()\<close> starts with no property.
\<close>

type_synonym occurrences = "(ustring \<times> nat) list"

definition new_Slugger :: occurrences where
  "new_Slugger = []"

definition own :: "occurrences \<Rightarrow> ustring \<Rightarrow> bool" where
  "own occ k = (map_of occ k \<noteq> None)"

text \<open>
  The loop of the method, from the test of its condition to the return. The counter is a
  natural number (the method counts up from 0 in steps of 1). The loop is entered with
  \<^verbatim>\<open>result = originalSlug\<close> and no property is ever deleted, so the counter of
  \<^verbatim>\<open>originalSlug\<close> exists whenever the body reads it: the branch for a missing
  counter is not reached from \<open>Slugger_slug\<close>. The loop ends because the registry is
  finite and each round tries a new string; that is the termination proof below.
\<close>

function slug_loop :: "occurrences \<Rightarrow> ustring \<Rightarrow> ustring \<Rightarrow> ustring \<times> occurrences" where
  "slug_loop occ originalSlug result =
     (if own occ result then
        (case map_of occ originalSlug of
           Some n \<Rightarrow>
             slug_loop (AList.update originalSlug (n + 1) occ) originalSlug
               (originalSlug @ [45] @ number_to_string (n + 1))
         | None \<Rightarrow> (result, occ))
      else (result, AList.update result 0 occ))"
  by pat_completeness auto

lemma digits_value_snoc: "digits_value (ds @ [d]) = 10 * digits_value ds + (d - 48)"
  by (simp add: digits_value_def)

lemma digits_value_number_to_string: "digits_value (number_to_string n) = n"
proof (induction n rule: number_to_string.induct)
  case (1 n)
  show ?case
  proof (cases "n < 10")
    case True
    then show ?thesis by (simp add: number_to_string.simps [of n] digits_value_def)
  next
    case False
    with 1 have "digits_value (number_to_string (n div 10)) = n div 10"
      by simp
    with False show ?thesis by (simp add: number_to_string.simps [of n] digits_value_snoc)
  qed
qed

lemma number_to_string_inj: "number_to_string m = number_to_string n \<Longrightarrow> m = n"
  by (metis digits_value_number_to_string)

lemma suffixed_inj:
  "b @ [45] @ number_to_string m = b @ [45] @ number_to_string n \<Longrightarrow> m = n"
  by (simp add: number_to_string_inj)

definition later_suffixes :: "occurrences \<Rightarrow> ustring \<Rightarrow> ustring set" where
  "later_suffixes occ b =
     {s \<in> fst ` set occ. \<exists>m. (case map_of occ b of Some n \<Rightarrow> n | None \<Rightarrow> 0) < m
        \<and> s = b @ [45] @ number_to_string m}"

definition loop_measure :: "occurrences \<times> ustring \<times> ustring \<Rightarrow> nat" where
  "loop_measure = (\<lambda>(occ, b, r). if own occ r then Suc (card (later_suffixes occ b)) else 0)"

lemma keys_update_present:
  "map_of occ k = Some n \<Longrightarrow> fst ` set (AList.update k v occ) = fst ` set occ"
  by (auto simp: dom_update dest: map_of_SomeD intro: rev_image_eqI)

lemma later_suffixes_iff:
  "map_of occ b = Some n \<Longrightarrow>
     s \<in> later_suffixes occ b \<longleftrightarrow>
       s \<in> fst ` set occ \<and> (\<exists>m. n < m \<and> s = b @ [45] @ number_to_string m)"
  by (simp add: later_suffixes_def)

lemma own_keys: "own occ k \<longleftrightarrow> k \<in> fst ` set occ"
  by (simp add: own_def map_of_eq_None_iff)

lemma loop_measure_decreases:
  assumes "own occ r" and "map_of occ b = Some n"
  shows "loop_measure (AList.update b (n + 1) occ, b, b @ [45] @ number_to_string (n + 1))
           < loop_measure (occ, b, r)"
proof -
  let ?occ' = "AList.update b (n + 1) occ"
  let ?r' = "b @ [45] @ number_to_string (n + 1)"
  have keys: "fst ` set ?occ' = fst ` set occ"
    using assms(2) by (rule keys_update_present)
  have cnt: "map_of ?occ' b = Some (n + 1)"
    by (simp add: update_conv')
  show ?thesis
  proof (cases "own ?occ' ?r'")
    case False
    with assms(1) show ?thesis by (simp add: loop_measure_def)
  next
    case True
    then have in_keys: "?r' \<in> fst ` set occ"
      unfolding own_keys keys .
    have sub: "later_suffixes ?occ' b \<subseteq> later_suffixes occ b"
    proof
      fix s assume "s \<in> later_suffixes ?occ' b"
      then obtain m where m: "s \<in> fst ` set occ" "n + 1 < m" "s = b @ [45] @ number_to_string m"
        unfolding later_suffixes_iff [OF cnt] keys by blast
      from m(2) have "n < m" by simp
      with m(1,3) show "s \<in> later_suffixes occ b"
        unfolding later_suffixes_iff [OF assms(2)] by blast
    qed
    have "n < n + 1" by simp
    with in_keys have "?r' \<in> later_suffixes occ b"
      unfolding later_suffixes_iff [OF assms(2)] by blast
    moreover have "?r' \<notin> later_suffixes ?occ' b"
    proof
      assume "?r' \<in> later_suffixes ?occ' b"
      then obtain m where "n + 1 < m" "?r' = b @ [45] @ number_to_string m"
        unfolding later_suffixes_iff [OF cnt] by blast
      then show False using suffixed_inj [of b "n + 1" m] by simp
    qed
    ultimately have "later_suffixes ?occ' b \<subset> later_suffixes occ b"
      using sub by blast
    moreover have "finite (later_suffixes occ b)"
      by (simp add: later_suffixes_def)
    ultimately have "card (later_suffixes ?occ' b) < card (later_suffixes occ b)"
      by (rule psubset_card_mono [rotated])
    with True assms(1) show ?thesis by (simp add: loop_measure_def)
  qed
qed

termination slug_loop
proof (relation "measure loop_measure")
  show "wf (measure loop_measure)" by simp
next
  fix occ :: occurrences and originalSlug result :: ustring and n :: nat
  assume "own occ result" and "map_of occ originalSlug = Some n"
  then show "((AList.update originalSlug (n + 1) occ, originalSlug,
               originalSlug @ [45] @ number_to_string (n + 1)),
              (occ, originalSlug, result)) \<in> measure loop_measure"
    using loop_measure_decreases [of occ result originalSlug n] by simp
qed

declare slug_loop.simps [simp del]

section \<open>Unicode data\<close>

text \<open>
  \<^verbatim>\<open>String.prototype.normalize\<close>, \<^verbatim>\<open>String.prototype.toLowerCase\<close> and the
  character class of the slugger's regular expression are Unicode tables. Their part for
  the code units below U+0100 (Basic Latin and Latin-1 Supplement) and for the arrow
  U+2192, which headings of the posts use, is written out here. What they do to a string
  with any other code unit is no part of any source file and is left open: it is the
  parameter \<open>X\<close> of everything that follows.
\<close>

record unicode =
  normalize_beyond :: "ustring \<Rightarrow> ustring"
  toLowerCase_beyond :: "ustring \<Rightarrow> ustring"
  regex_beyond :: "ustring \<Rightarrow> ustring"

definition tabled_unit :: "nat \<Rightarrow> bool" where
  "tabled_unit u = (u < 256 \<or> u = 0x2192)"

definition tabled :: "ustring \<Rightarrow> bool" where
  "tabled str = list_all tabled_unit str"

text \<open>
  Canonical decompositions of the Latin-1 letters: code unit, base letter, combining
  mark. No code unit below U+00C0 has a canonical decomposition, and neither have
  U+00C6, U+00D0, U+00D7, U+00D8, U+00DE, U+00DF, U+00E6, U+00F0, U+00F7, U+00F8, U+00FE
  and U+2192. Lower-casing leaves U+2192 as it is.
\<close>

definition canonical_decomposition :: "(nat \<times> nat \<times> nat) list" where
  "canonical_decomposition =
     [(0xC0, 0x41, 0x300), (0xC1, 0x41, 0x301), (0xC2, 0x41, 0x302), (0xC3, 0x41, 0x303),
      (0xC4, 0x41, 0x308), (0xC5, 0x41, 0x30A), (0xC7, 0x43, 0x327),
      (0xC8, 0x45, 0x300), (0xC9, 0x45, 0x301), (0xCA, 0x45, 0x302), (0xCB, 0x45, 0x308),
      (0xCC, 0x49, 0x300), (0xCD, 0x49, 0x301), (0xCE, 0x49, 0x302), (0xCF, 0x49, 0x308),
      (0xD1, 0x4E, 0x303),
      (0xD2, 0x4F, 0x300), (0xD3, 0x4F, 0x301), (0xD4, 0x4F, 0x302), (0xD5, 0x4F, 0x303),
      (0xD6, 0x4F, 0x308),
      (0xD9, 0x55, 0x300), (0xDA, 0x55, 0x301), (0xDB, 0x55, 0x302), (0xDC, 0x55, 0x308),
      (0xDD, 0x59, 0x301),
      (0xE0, 0x61, 0x300), (0xE1, 0x61, 0x301), (0xE2, 0x61, 0x302), (0xE3, 0x61, 0x303),
      (0xE4, 0x61, 0x308), (0xE5, 0x61, 0x30A), (0xE7, 0x63, 0x327),
      (0xE8, 0x65, 0x300), (0xE9, 0x65, 0x301), (0xEA, 0x65, 0x302), (0xEB, 0x65, 0x308),
      (0xEC, 0x69, 0x300), (0xED, 0x69, 0x301), (0xEE, 0x69, 0x302), (0xEF, 0x69, 0x308),
      (0xF1, 0x6E, 0x303),
      (0xF2, 0x6F, 0x300), (0xF3, 0x6F, 0x301), (0xF4, 0x6F, 0x302), (0xF5, 0x6F, 0x303),
      (0xF6, 0x6F, 0x308),
      (0xF9, 0x75, 0x300), (0xFA, 0x75, 0x301), (0xFB, 0x75, 0x302), (0xFC, 0x75, 0x308),
      (0xFD, 0x79, 0x301), (0xFF, 0x79, 0x308)]"

definition decompose :: "nat \<Rightarrow> ustring" where
  "decompose u =
     (case map_of canonical_decomposition u of Some (b, m) \<Rightarrow> [b, m] | None \<Rightarrow> [u])"

definition normalize_NFD :: "unicode \<Rightarrow> ustring \<Rightarrow> ustring" where
  "normalize_NFD X str =
     (if tabled str then concat (map decompose str) else normalize_beyond X str)"

definition lower_unit :: "nat \<Rightarrow> nat" where
  "lower_unit u =
     (if (0x41 \<le> u \<and> u \<le> 0x5A) \<or> (0xC0 \<le> u \<and> u \<le> 0xDE \<and> u \<noteq> 0xD7) then u + 32 else u)"

definition toLowerCase :: "unicode \<Rightarrow> ustring \<Rightarrow> ustring" where
  "toLowerCase X str =
     (if tabled str then map lower_unit str else toLowerCase_beyond X str)"

text \<open>
  The character class of the slugger's pattern, up to U+00FF:
  \<^verbatim>\<open>[\0-\x1F!-,\.\/:-@\[-\^`\{-\xA9\xAB-\xB4\xB6-\xB9\xBB-\xBF\xD7\xF7 ...]\<close>.
  The space, the hyphen, the underscore, digits and letters are outside it. The arrows,
  U+2192 among them, are symbols and inside it.
\<close>

definition regex_unit :: "nat \<Rightarrow> bool" where
  "regex_unit u =
     (u \<le> 0x1F \<or> (0x21 \<le> u \<and> u \<le> 0x2C) \<or> u = 0x2E \<or> u = 0x2F
      \<or> (0x3A \<le> u \<and> u \<le> 0x40) \<or> (0x5B \<le> u \<and> u \<le> 0x5E) \<or> u = 0x60
      \<or> (0x7B \<le> u \<and> u \<le> 0xA9) \<or> (0xAB \<le> u \<and> u \<le> 0xB4) \<or> (0xB6 \<le> u \<and> u \<le> 0xB9)
      \<or> (0xBB \<le> u \<and> u \<le> 0xBF) \<or> u = 0xD7 \<or> u = 0xF7 \<or> u = 0x2192)"

definition replace_regex :: "unicode \<Rightarrow> ustring \<Rightarrow> ustring" where
  "replace_regex X str =
     (if tabled str then filter (\<lambda>u. \<not> regex_unit u) str else regex_beyond X str)"

section \<open>The plugin\<close>

text \<open>
  \<^verbatim>\<open>str.normalize("NFD").replace(/[\u0300-\u036f]/g, "")\<close>
\<close>

definition combining_mark :: "nat \<Rightarrow> bool" where
  "combining_mark u = (0x300 \<le> u \<and> u \<le> 0x36F)"

definition stripDiacritics :: "unicode \<Rightarrow> ustring \<Rightarrow> ustring" where
  "stripDiacritics X str = filter (\<lambda>u. \<not> combining_mark u) (normalize_NFD X str)"

text \<open>
  The slugger's function on one string:
  \<^verbatim>\<open>value.toLowerCase().replace(regex, '').replace(/ /g, '-')\<close>
\<close>

definition slug :: "unicode \<Rightarrow> ustring \<Rightarrow> ustring" where
  "slug X v =
     map (\<lambda>u. if u = 32 then 45 else u) (replace_regex X (toLowerCase X v))"

definition Slugger_slug :: "unicode \<Rightarrow> occurrences \<Rightarrow> ustring \<Rightarrow> ustring \<times> occurrences" where
  "Slugger_slug X occ v = (let originalSlug = slug X v in slug_loop occ originalSlug originalSlug)"

text \<open>
  A node of the document tree (mdast): its type tag, its literal value if it has one, its
  data bag if it has one, all its other fields, and its children (none for a node without
  the field). The data bag holds \<^verbatim>\<open>id\<close>, \<^verbatim>\<open>hProperties\<close> and other keys;
  \<^verbatim>\<open>hProperties\<close> holds \<^verbatim>\<open>id\<close> and other keys. Where present, the two bags
  are objects, as the node types of mdast have them.
\<close>

record 'a properties =
  prop_id :: "ustring option"
  prop_rest :: "(string \<times> 'a) list"

record 'a data =
  data_id :: "ustring option"
  hProperties :: "'a properties option"
  data_rest :: "(string \<times> 'a) list"

datatype 'a node =
  Node (ntype: string) (nvalue: "ustring option") (ndata: "'a data option") (nrest: 'a)
    (children: "'a node list")

text \<open>
  \<^verbatim>\<open>
    node.children
      .filter((c) => c.type === "text" || c.type === "inlineCode")
      .map((c) => c.value)
      .join("")
  \<close>
  \<^verbatim>\<open>join\<close> writes a missing value as the empty string.
\<close>

definition heading_text :: "'a node \<Rightarrow> ustring" where
  "heading_text node =
     concat (map (\<lambda>c. case nvalue c of Some v \<Rightarrow> v | None \<Rightarrow> [])
       (filter (\<lambda>c. ntype c = ''text'' \<or> ntype c = ''inlineCode'') (children node)))"

text \<open>
  The callback given to \<^verbatim>\<open>visit\<close>, with the slugger's state passed through:
  \<^verbatim>\<open>
    const slug = slugger.slug(stripDiacritics(text));
    if (!node.data) node.data = {};
    if (!node.data.hProperties) node.data.hProperties = {};
    node.data.hProperties.id = slug;
    node.data.id = slug;
  \<close>
\<close>

definition visitor :: "unicode \<Rightarrow> occurrences \<Rightarrow> 'a node \<Rightarrow> 'a node \<times> occurrences" where
  "visitor X occ node =
     (let text = heading_text node;
          (s, occ') = Slugger_slug X occ (stripDiacritics X text);
          d0 = (case ndata node of
                  None \<Rightarrow> \<lparr>data_id = None, hProperties = None, data_rest = []\<rparr>
                | Some d \<Rightarrow> d);
          p0 = (case hProperties d0 of
                  None \<Rightarrow> \<lparr>prop_id = None, prop_rest = []\<rparr>
                | Some p \<Rightarrow> p);
          d1 = d0\<lparr>hProperties := Some (p0\<lparr>prop_id := Some s\<rparr>)\<rparr>;
          d2 = d1\<lparr>data_id := Some s\<rparr>
      in (Node (ntype node) (nvalue node) (Some d2) (nrest node) (children node), occ'))"

text \<open>
  \<^verbatim>\<open>visit(tree, "heading", ...)\<close>: every node in document order, parents before
  children; the callback runs on the nodes of type heading.
\<close>

fun visit :: "unicode \<Rightarrow> occurrences \<Rightarrow> 'a node \<Rightarrow> 'a node \<times> occurrences"
  and visit_children :: "unicode \<Rightarrow> occurrences \<Rightarrow> 'a node list \<Rightarrow> 'a node list \<times> occurrences"
where
  "visit X occ (Node t v d r cs) =
     (let (n1, occ1) = (if t = ''heading'' then visitor X occ (Node t v d r cs)
                        else (Node t v d r cs, occ));
          (cs', occ2) = visit_children X occ1 cs
      in (Node (ntype n1) (nvalue n1) (ndata n1) (nrest n1) cs', occ2))"
| "visit_children X occ [] = ([], occ)"
| "visit_children X occ (c # cs) =
     (let (c', occ1) = visit X occ c;
          (cs', occ2) = visit_children X occ1 cs
      in (c' # cs', occ2))"

definition remarkAsciiSlugs :: "unicode \<Rightarrow> 'a node \<Rightarrow> 'a node" where
  "remarkAsciiSlugs X tree = (let slugger = new_Slugger in fst (visit X slugger tree))"

section \<open>Observations on a processed tree\<close>

text \<open>The heading nodes of a tree, in the order in which \<open>visit\<close> reaches them.\<close>

fun headings :: "'a node \<Rightarrow> 'a node list"
  and headings_children :: "'a node list \<Rightarrow> 'a node list"
where
  "headings (Node t v d r cs) =
     (if t = ''heading'' then [Node t v d r cs] else []) @ headings_children cs"
| "headings_children [] = []"
| "headings_children (c # cs) = headings c @ headings_children cs"

text \<open>The two places a slug is written to: \<^verbatim>\<open>node.data.id\<close> and
  \<^verbatim>\<open>node.data.hProperties.id\<close>.\<close>

definition node_id :: "'a node \<Rightarrow> ustring option" where
  "node_id n = (case ndata n of None \<Rightarrow> None | Some d \<Rightarrow> data_id d)"

definition node_hProperties_id :: "'a node \<Rightarrow> ustring option" where
  "node_hProperties_id n =
     (case ndata n of None \<Rightarrow> None
      | Some d \<Rightarrow> (case hProperties d of None \<Rightarrow> None | Some p \<Rightarrow> prop_id p))"

text \<open>The strings handed to \<^verbatim>\<open>slugger.slug\<close>, one for each heading of a tree.\<close>

definition heading_values :: "unicode \<Rightarrow> 'a node \<Rightarrow> ustring list" where
  "heading_values X tree = map (\<lambda>h. stripDiacritics X (heading_text h)) (headings tree)"

text \<open>Consecutive calls of \<^verbatim>\<open>slugger.slug\<close> on one slugger.\<close>

fun slug_each :: "unicode \<Rightarrow> occurrences \<Rightarrow> ustring list \<Rightarrow> ustring list \<times> occurrences" where
  "slug_each X occ [] = ([], occ)"
| "slug_each X occ (v # vs) =
     (let (s, occ1) = Slugger_slug X occ v;
          (ss, occ2) = slug_each X occ1 vs
      in (s # ss, occ2))"

definition assigned_slugs :: "unicode \<Rightarrow> 'a node \<Rightarrow> ustring option list" where
  "assigned_slugs X tree = map node_id (headings (remarkAsciiSlugs X tree))"

text \<open>
  The outcome of a traversal, as the proofs use it: the headings \<open>hs\<close> have become
  \<open>hs'\<close>, both ids of each carry the slug the slugger returned for it, and the registry
  went from \<open>occ\<close> to \<open>occ'\<close>.
\<close>

definition traversed :: "unicode \<Rightarrow> occurrences \<Rightarrow> 'a node list \<Rightarrow> 'a node list \<Rightarrow> occurrences \<Rightarrow> bool" where
  "traversed X occ hs hs' occ' \<longleftrightarrow>
     (let r = slug_each X occ (map (\<lambda>h. stripDiacritics X (heading_text h)) hs)
      in map node_id hs' = map Some (fst r) \<and> map node_hProperties_id hs' = map Some (fst r)
         \<and> occ' = snd r)"

text \<open>The slug of each heading before disambiguation.\<close>

definition base_slugs :: "unicode \<Rightarrow> 'a node \<Rightarrow> ustring list" where
  "base_slugs X tree = map (slug X) (heading_values X tree)"

text \<open>
  The numbering scheme in the words of the specification: the first occurrence of a base
  slug is emitted unchanged, each later occurrence as the base, a hyphen and the number of
  occurrences before it. \<open>seen\<close> holds the base slugs of the headings before.
\<close>

fun number_repeats :: "ustring list \<Rightarrow> ustring list \<Rightarrow> ustring list" where
  "number_repeats seen [] = []"
| "number_repeats seen (b # bs) =
     (let n = count_list seen b
      in if n = 0 then b else b @ [45] @ number_to_string n) # number_repeats (b # seen) bs"

text \<open>
  A base slug \<open>c\<close> of the list \<open>bs\<close> collides when it is \<open>b\<close>, a hyphen and a counter
  \<open>m\<close>, for a base slug \<open>b\<close> of the list and \<open>m\<close> from 1 on and below the number of
  occurrences of \<open>b\<close>: the numbering gives the same string to the heading that
  repeats \<open>b\<close> for the \<open>m\<close>-th time.
\<close>

definition collision :: "ustring list \<Rightarrow> ustring \<Rightarrow> bool" where
  "collision bs c =
     list_ex (\<lambda>b. list_ex (\<lambda>m. c = b @ [45] @ number_to_string m) [1..<count_list bs b]) bs"

definition collision_free :: "ustring list \<Rightarrow> bool" where
  "collision_free bs = (\<not> list_ex (collision bs) bs)"

text \<open>
  The registry after the slugger has been given the base slugs \<open>p\<close>, none of them
  colliding: each base slug with the number of its repeats, each slug made up for a
  repeat with 0.
\<close>

definition numbered :: "ustring list \<Rightarrow> ustring \<Rightarrow> bool" where
  "numbered p k \<longleftrightarrow>
     (\<exists>b m. 1 \<le> m \<and> m < count_list p b \<and> k = b @ [45] @ number_to_string m)"

definition registry :: "ustring list \<Rightarrow> ustring \<Rightarrow> nat option" where
  "registry p k =
     (if k \<in> set p then Some (count_list p k - 1)
      else if numbered p k then Some 0 else None)"

text \<open>
  What the callback may change on a heading: afterwards the data bag exists and holds the
  slug under \<^verbatim>\<open>id\<close>, its \<^verbatim>\<open>hProperties\<close> exists and holds the same slug
  under \<^verbatim>\<open>id\<close>, and the other keys of both are the ones from before (none, where
  the container did not exist).
\<close>

definition ids_written :: "'a data option \<Rightarrow> 'a data option \<Rightarrow> bool" where
  "ids_written d d' =
     (case d' of
        None \<Rightarrow> False
      | Some e' \<Rightarrow>
          data_id e' \<noteq> None
          \<and> data_rest e' = (case d of None \<Rightarrow> [] | Some e \<Rightarrow> data_rest e)
          \<and> (case hProperties e' of
                None \<Rightarrow> False
              | Some p' \<Rightarrow>
                  prop_id p' = data_id e'
                  \<and> prop_rest p' =
                      (case d of
                         None \<Rightarrow> []
                       | Some e \<Rightarrow> (case hProperties e of None \<Rightarrow> [] | Some p \<Rightarrow> prop_rest p))))"

text \<open>
  Two trees that differ in nothing but the ids of their headings: same shape, same order
  of children, same type, value and other fields at every node, the same data bag at
  every node that is no heading.
\<close>

fun same_but_ids :: "'a node \<Rightarrow> 'a node \<Rightarrow> bool" where
  "same_but_ids (Node t v d r cs) (Node t' v' d' r' cs') =
     (t' = t \<and> v' = v \<and> r' = r
      \<and> (if t = ''heading'' then ids_written d d' else d' = d)
      \<and> list_all2 same_but_ids cs cs')"

text \<open>
  The code units below U+0100 that are letters without a canonical decomposition and
  outside the slugger's pattern: they reach the slug as they are (lower-cased).
\<close>

definition undecomposed_letters :: "nat list" where
  "undecomposed_letters = [0xAA, 0xB5, 0xBA, 0xC6, 0xD0, 0xD8, 0xDE, 0xDF, 0xE6, 0xF0, 0xF8, 0xFE]"

definition ascii_reducible :: "ustring \<Rightarrow> bool" where
  "ascii_reducible str = list_all (\<lambda>u. tabled_unit u \<and> u \<notin> set undecomposed_letters) str"

definition ascii_only :: "ustring \<Rightarrow> bool" where
  "ascii_only str = list_all (\<lambda>u. u < 128) str"

text \<open>Text of ASCII letters, digits, spaces, hyphens and underscores.\<close>

definition plain_unit :: "nat \<Rightarrow> bool" where
  "plain_unit u =
     ((0x30 \<le> u \<and> u \<le> 0x39) \<or> (0x41 \<le> u \<and> u \<le> 0x5A) \<or> (0x61 \<le> u \<and> u \<le> 0x7A)
      \<or> u = 32 \<or> u = 45 \<or> u = 0x5F)"

definition plain :: "ustring \<Rightarrow> bool" where
  "plain str = list_all plain_unit str"

text \<open>
  What is left of a heading's text after normalization, lower-casing and the deletion of
  the characters of the slugger's pattern, before spaces become hyphens.
\<close>

definition surviving_text :: "unicode \<Rightarrow> ustring \<Rightarrow> ustring" where
  "surviving_text X text = replace_regex X (toLowerCase X (stripDiacritics X text))"

text \<open>The last step of \<open>slug\<close> on one code unit: \<^verbatim>\<open>.replace(/ /g, '-')\<close>.\<close>

definition hyphenated :: "nat \<Rightarrow> nat" where
  "hyphenated u = (if u = 32 then 45 else u)"

text \<open>What \<open>stripDiacritics\<close> and \<open>slug\<close> make of a single code unit of the tables.\<close>

definition strip_unit :: "nat \<Rightarrow> ustring" where
  "strip_unit u = filter (\<lambda>u. \<not> combining_mark u) (decompose u)"

definition ascii_capital :: "nat \<Rightarrow> bool" where
  "ascii_capital u = (0x41 \<le> u \<and> u \<le> 0x5A)"

definition unit_slug :: "nat \<Rightarrow> ustring" where
  "unit_slug u =
     map (\<lambda>u. if u = 32 then 45 else u)
       (filter (\<lambda>u. \<not> regex_unit u) (map lower_unit (strip_unit u)))"

text \<open>Consecutive runs of the loop on one registry, one for each base slug.\<close>

fun slug_loops :: "occurrences \<Rightarrow> ustring list \<Rightarrow> ustring list \<times> occurrences" where
  "slug_loops occ [] = ([], occ)"
| "slug_loops occ (b # bs) =
     (let (s, occ1) = slug_loop occ b b;
          (ss, occ2) = slug_loops occ1 bs
      in (s # ss, occ2))"

text \<open>
  The selection of the text in the words of the specification: from the direct children,
  those of kind text or inline code contribute their literal value, in order; a child of
  any other kind is skipped.
\<close>

definition literal :: "'a node \<Rightarrow> ustring" where
  "literal c = (case nvalue c of Some v \<Rightarrow> v | None \<Rightarrow> [])"

fun direct_text :: "'a node list \<Rightarrow> ustring" where
  "direct_text [] = []"
| "direct_text (c # cs) =
     (if ntype c = ''text'' \<or> ntype c = ''inlineCode'' then literal c @ direct_text cs
      else direct_text cs)"

text \<open>
  Documents for the examples. Their text lies within the tables, where the parameter
  for the rest of Unicode is not consulted; the examples are evaluated with one that
  leaves a string as it is.
\<close>

definition identity_beyond :: unicode where
  "identity_beyond =
     \<lparr>normalize_beyond = (\<lambda>str. str), toLowerCase_beyond = (\<lambda>str. str),
      regex_beyond = (\<lambda>str. str)\<rparr>"

definition text_node :: "ustring \<Rightarrow> unit node" where
  "text_node str = Node ''text'' (Some str) None () []"

definition heading_node :: "unit node list \<Rightarrow> unit node" where
  "heading_node cs = Node ''heading'' None None () cs"

definition root_node :: "unit node list \<Rightarrow> unit node" where
  "root_node cs = Node ''root'' None None () cs"

definition titled :: "ustring list \<Rightarrow> unit node" where
  "titled titles = root_node (map (\<lambda>t. heading_node [text_node t]) titles)"

section \<open>The traversal as a run of the slugger\<close>

lemma slug_each_append:
  "slug_each X occ (us @ vs) =
     (let (a, occ1) = slug_each X occ us; (b, occ2) = slug_each X occ1 vs in (a @ b, occ2))"
  by (induction us arbitrary: occ) (simp_all split: prod.splits)

lemma visitor_fields:
  "visitor X occ n = (n', occ') \<Longrightarrow>
     ntype n' = ntype n \<and> nvalue n' = nvalue n \<and> nrest n' = nrest n \<and> children n' = children n"
  by (auto simp: visitor_def Let_def split: prod.splits)

lemma visitor_ids:
  "visitor X occ n = (n', occ') \<Longrightarrow>
     node_id n' = Some (fst (Slugger_slug X occ (stripDiacritics X (heading_text n))))
     \<and> node_hProperties_id n' = node_id n'
     \<and> occ' = snd (Slugger_slug X occ (stripDiacritics X (heading_text n)))"
  by (auto simp: visitor_def Let_def node_id_def node_hProperties_id_def split: prod.splits)

lemma heading_text_children:
  "heading_text (Node t v d r cs) = heading_text (Node t' v' d' r' cs)"
  by (simp add: heading_text_def)

lemma visit_ntype: "ntype (fst (visit X occ n)) = ntype n"
  by (cases n) (auto simp: Let_def split: prod.splits dest: visitor_fields)

lemma visit_nvalue: "nvalue (fst (visit X occ n)) = nvalue n"
  by (cases n) (auto simp: Let_def split: prod.splits dest: visitor_fields)

lemma traversed_Nil: "traversed X occ [] [] occ"
  by (simp add: traversed_def)

lemma traversed_append:
  "traversed X occ hs hs' occ1 \<Longrightarrow> traversed X occ1 ks ks' occ2 \<Longrightarrow>
     traversed X occ (hs @ ks) (hs' @ ks') occ2"
  by (simp add: traversed_def Let_def slug_each_append split: prod.splits)

lemma traversed_visitor:
  "visitor X occ n = (n', occ') \<Longrightarrow> heading_text m = heading_text n \<Longrightarrow>
     node_id m' = node_id n' \<Longrightarrow> node_hProperties_id m' = node_hProperties_id n' \<Longrightarrow>
     traversed X occ [m] [m'] occ'"
  by (drule visitor_ids) (simp add: traversed_def Let_def split: prod.splits)

lemma visit_children_traversed:
  "(\<And>c occ. c \<in> set cs \<Longrightarrow>
      traversed X occ (headings c) (headings (fst (visit X occ c))) (snd (visit X occ c))) \<Longrightarrow>
   traversed X occ (headings_children cs) (headings_children (fst (visit_children X occ cs)))
     (snd (visit_children X occ cs))"
proof (induction cs arbitrary: occ)
  case Nil
  show ?case by (simp add: traversed_Nil)
next
  case (Cons c cs)
  have c: "traversed X occ (headings c) (headings (fst (visit X occ c))) (snd (visit X occ c))"
    using Cons.prems by simp
  have cs: "traversed X (snd (visit X occ c)) (headings_children cs)
      (headings_children (fst (visit_children X (snd (visit X occ c)) cs)))
      (snd (visit_children X (snd (visit X occ c)) cs))"
    using Cons.IH Cons.prems by simp
  show ?case
    using traversed_append [OF c cs] by (simp add: Let_def case_prod_beta)
qed

lemma visit_traversed:
  "traversed X occ (headings n) (headings (fst (visit X occ n))) (snd (visit X occ n))"
proof (induction n arbitrary: occ)
  case (Node t v d r cs)
  have kids: "\<And>o1. traversed X o1 (headings_children cs)
      (headings_children (fst (visit_children X o1 cs))) (snd (visit_children X o1 cs))"
    using Node.IH by (rule visit_children_traversed)
  show ?case
  proof (cases "t = ''heading''")
    case False
    then show ?thesis using kids [of occ] by (simp add: Let_def case_prod_beta)
  next
    case True
    obtain n1 occ1 where v: "visitor X occ (Node t v d r cs) = (n1, occ1)"
      by (cases "visitor X occ (Node t v d r cs)")
    obtain cs' occ2 where k: "visit_children X occ1 cs = (cs', occ2)"
      by (cases "visit_children X occ1 cs")
    have res: "visit X occ (Node t v d r cs)
                 = (Node (ntype n1) (nvalue n1) (ndata n1) (nrest n1) cs', occ2)"
      using True v k by simp
    have ty: "ntype n1 = ''heading''"
      using visitor_fields [OF v] True by simp
    have one: "traversed X occ [Node t v d r cs]
                 [Node (ntype n1) (nvalue n1) (ndata n1) (nrest n1) cs'] occ1"
      by (rule traversed_visitor [OF v]) (simp_all add: node_id_def node_hProperties_id_def)
    have "traversed X occ1 (headings_children cs) (headings_children cs') occ2"
      using kids [of occ1] k by simp
    from traversed_append [OF one this] show ?thesis
      using True ty res by simp
  qed
qed

lemma remark_traversed:
  "traversed X [] (headings tree) (headings (remarkAsciiSlugs X tree))
     (snd (visit X [] tree))"
  using visit_traversed [of X "[]" tree] by (simp add: remarkAsciiSlugs_def new_Slugger_def)

lemma assigned_slugs_eq:
  "assigned_slugs X tree = map Some (fst (slug_each X [] (heading_values X tree)))"
  using remark_traversed [of X tree]
  by (simp add: traversed_def assigned_slugs_def heading_values_def Let_def)

subsection \<open>What one call of the slugger does to the registry\<close>

lemma slug_loop_fresh:
  "(own occ r \<Longrightarrow> own occ b) \<Longrightarrow>
     fst (slug_loop occ b r) \<notin> fst ` set occ
     \<and> fst ` set (snd (slug_loop occ b r)) = insert (fst (slug_loop occ b r)) (fst ` set occ)"
proof (induction occ b r rule: slug_loop.induct)
  case (1 occ b r)
  show ?case
  proof (cases "own occ r")
    case False
    then show ?thesis
      by (simp add: slug_loop.simps [of occ b r] own_keys dom_update)
  next
    case True
    with 1(2) have "own occ b" by simp
    then obtain n where n: "map_of occ b = Some n"
      by (auto simp: own_def)
    let ?occ1 = "AList.update b (n + 1) occ"
    let ?r1 = "b @ [45] @ number_to_string (n + 1)"
    have keys: "fst ` set ?occ1 = fst ` set occ"
      using n by (rule keys_update_present)
    have "own ?occ1 b" by (simp add: own_def update_conv')
    with 1(1) [OF True n] have
      "fst (slug_loop ?occ1 b ?r1) \<notin> fst ` set ?occ1
       \<and> fst ` set (snd (slug_loop ?occ1 b ?r1)) = insert (fst (slug_loop ?occ1 b ?r1)) (fst ` set ?occ1)"
      by simp
    moreover have "slug_loop occ b r = slug_loop ?occ1 b ?r1"
      using True n by (simp add: slug_loop.simps [of occ b r])
    ultimately show ?thesis using keys by simp
  qed
qed

lemma Slugger_slug_fresh:
  "fst (Slugger_slug X occ v) \<notin> fst ` set occ
   \<and> fst ` set (snd (Slugger_slug X occ v)) = insert (fst (Slugger_slug X occ v)) (fst ` set occ)"
  using slug_loop_fresh [of occ "slug X v" "slug X v"] by (simp add: Slugger_slug_def Let_def)

lemma slug_each_distinct:
  "distinct (fst (slug_each X occ vs))
   \<and> set (fst (slug_each X occ vs)) \<inter> fst ` set occ = {}
   \<and> fst ` set (snd (slug_each X occ vs)) = set (fst (slug_each X occ vs)) \<union> fst ` set occ"
proof (induction vs arbitrary: occ)
  case Nil
  show ?case by simp
next
  case (Cons v vs)
  let ?s = "fst (Slugger_slug X occ v)" and ?occ1 = "snd (Slugger_slug X occ v)"
  note step = Slugger_slug_fresh [of X occ v]
  note rest = Cons.IH [of ?occ1]
  have unfold: "slug_each X occ (v # vs)
      = (?s # fst (slug_each X ?occ1 vs), snd (slug_each X ?occ1 vs))"
    by (simp add: Let_def case_prod_beta)
  from step rest show ?case
    unfolding unfold by auto
qed

section \<open>The registry\<close>

lemma number_to_string_digits: "list_all (\<lambda>d. 48 \<le> d \<and> d \<le> 57) (number_to_string n)"
proof (induction n rule: number_to_string.induct)
  case (1 n)
  show ?case
  proof (cases "n < 10")
    case True
    then show ?thesis by (simp add: number_to_string.simps [of n])
  next
    case False
    with 1 show ?thesis by (simp add: number_to_string.simps [of n])
  qed
qed

lemma no_hyphen_in_number: "45 \<notin> set (number_to_string n)"
  using number_to_string_digits [of n] by (auto simp: list_all_iff)

lemma first_occurrence_splits:
  "x \<notin> set xs \<Longrightarrow> x \<notin> set xs' \<Longrightarrow> xs @ x # ys = xs' @ x # ys' \<Longrightarrow>
     xs = xs' \<and> ys = ys'"
proof (induction xs arbitrary: xs')
  case Nil
  then show ?case by (cases xs') auto
next
  case (Cons a xs)
  then show ?case by (cases xs') auto
qed

lemma suffixed_inj2:
  assumes "b @ [45] @ number_to_string m = b' @ [45] @ number_to_string n"
  shows "b = b' \<and> m = n"
proof -
  from assms have "rev (b @ [45] @ number_to_string m) = rev (b' @ [45] @ number_to_string n)"
    by simp
  then have "rev (number_to_string m) @ 45 # rev b = rev (number_to_string n) @ 45 # rev b'"
    by simp
  moreover have "45 \<notin> set (rev (number_to_string m))" "45 \<notin> set (rev (number_to_string n))"
    using no_hyphen_in_number by simp_all
  ultimately have "rev (number_to_string m) = rev (number_to_string n) \<and> rev b = rev b'"
    by (rule first_occurrence_splits [rotated 2])
  then show ?thesis by (simp add: number_to_string_inj)
qed

lemma slug_loop_new: "\<not> own occ b \<Longrightarrow> slug_loop occ b b = (b, AList.update b 0 occ)"
  by (simp add: slug_loop.simps [of occ b b])

lemma slug_loop_repeat:
  assumes "map_of occ b = Some n" and "\<not> own occ (b @ [45] @ number_to_string (n + 1))"
  shows "slug_loop occ b b =
           (b @ [45] @ number_to_string (n + 1),
            AList.update (b @ [45] @ number_to_string (n + 1)) 0 (AList.update b (n + 1) occ))"
proof -
  let ?occ1 = "AList.update b (n + 1) occ" and ?r1 = "b @ [45] @ number_to_string (n + 1)"
  have "own occ b" using assms(1) by (simp add: own_def)
  then have "slug_loop occ b b = slug_loop ?occ1 b ?r1"
    using assms(1) by (simp add: slug_loop.simps [of occ b b])
  moreover have "\<not> own ?occ1 ?r1"
    using assms(2) keys_update_present [OF assms(1)] unfolding own_keys by simp
  then have "slug_loop ?occ1 b ?r1 = (?r1, AList.update ?r1 0 ?occ1)"
    by (subst slug_loop.simps) simp
  ultimately show ?thesis by simp
qed

lemma numbered_Cons:
  "numbered (b # p) k \<longleftrightarrow>
     numbered p k \<or> (1 \<le> count_list p b \<and> k = b @ [45] @ number_to_string (count_list p b))"
proof
  assume "numbered (b # p) k"
  then obtain c m where m: "1 \<le> m" "m < count_list (b # p) c" "k = c @ [45] @ number_to_string m"
    unfolding numbered_def by blast
  show "numbered p k \<or> (1 \<le> count_list p b \<and> k = b @ [45] @ number_to_string (count_list p b))"
  proof (cases "c = b \<and> m = count_list p b")
    case True
    with m show ?thesis by simp
  next
    case False
    with m(2) have "m < count_list p c" by (auto split: if_splits)
    with m(1,3) have "numbered p k" unfolding numbered_def by blast
    then show ?thesis ..
  qed
next
  assume "numbered p k \<or> (1 \<le> count_list p b \<and> k = b @ [45] @ number_to_string (count_list p b))"
  then show "numbered (b # p) k"
  proof
    assume "numbered p k"
    then obtain c m where m: "1 \<le> m" "m < count_list p c" "k = c @ [45] @ number_to_string m"
      unfolding numbered_def by blast
    from m(2) have "m < count_list (b # p) c" by simp
    with m(1,3) show ?thesis unfolding numbered_def by blast
  next
    assume a: "1 \<le> count_list p b \<and> k = b @ [45] @ number_to_string (count_list p b)"
    have "count_list p b < count_list (b # p) b" by simp
    with a show ?thesis unfolding numbered_def by blast
  qed
qed

lemma suffixed_longer: "b @ [45] @ number_to_string m \<noteq> b"
  by simp

lemma registry_step:
  assumes inv: "map_of occ = registry p"
    and new: "b \<notin> set p \<Longrightarrow> \<not> numbered p b"
    and rep: "b \<in> set p \<Longrightarrow> b @ [45] @ number_to_string (count_list p b) \<notin> set p"
  shows "fst (slug_loop occ b b)
           = (let n = count_list p b in if n = 0 then b else b @ [45] @ number_to_string n)
         \<and> map_of (snd (slug_loop occ b b)) = registry (b # p)"
proof (cases "b \<in> set p")
  case False
  with new have "\<not> own occ b" by (simp add: own_def inv registry_def)
  then have res: "slug_loop occ b b = (b, AList.update b 0 occ)" by (rule slug_loop_new)
  have "registry (b # p) k = ((registry p)(b \<mapsto> 0)) k" for k
    using False by (simp add: registry_def numbered_Cons)
  then have "map_of (AList.update b 0 occ) = registry (b # p)"
    by (simp add: update_conv' inv fun_eq_iff)
  with res False show ?thesis by simp
next
  case True
  define c where "c = count_list p b"
  let ?r = "b @ [45] @ number_to_string c"
  have c: "1 \<le> c" using True unfolding c_def
    by (metis One_nat_def Suc_leI count_list_0_iff neq0_conv)
  have cnt: "map_of occ b = Some (c - 1)"
    using True by (simp add: inv registry_def c_def)
  have r_not_seen: "?r \<notin> set (b # p)"
    using rep [OF True] suffixed_longer [of b c] by (simp add: c_def)
  have "\<not> numbered p ?r"
  proof
    assume "numbered p ?r"
    then obtain d m where m: "m < count_list p d" "?r = d @ [45] @ number_to_string m"
      unfolding numbered_def by blast
    from suffixed_inj2 [OF m(2)] m(1) show False by (auto simp: c_def)
  qed
  with r_not_seen have "\<not> own occ ?r" by (simp add: own_def inv registry_def)
  with c have "\<not> own occ (b @ [45] @ number_to_string (c - 1 + 1))" by simp
  from slug_loop_repeat [OF cnt this] c
  have res: "slug_loop occ b b = (?r, AList.update ?r 0 (AList.update b c occ))" by simp
  have "registry (b # p) k = ((registry p)(b \<mapsto> c, ?r \<mapsto> 0)) k" for k
  proof (cases "k = ?r")
    case True
    with r_not_seen c show ?thesis
      by (simp add: registry_def numbered_Cons c_def)
  next
    case False
    then show ?thesis using c
      by (simp add: registry_def numbered_Cons c_def)
  qed
  then have "map_of (AList.update ?r 0 (AList.update b c occ)) = registry (b # p)"
    by (simp add: update_conv' inv fun_eq_iff)
  moreover have "c \<noteq> 0" using c by simp
  ultimately show ?thesis using res by (simp add: c_def [symmetric] Let_def)
qed

lemma Slugger_slug_loop: "Slugger_slug X occ v = slug_loop occ (slug X v) (slug X v)"
  by (simp add: Slugger_slug_def Let_def)

lemma Slugger_slug_base:
  "slug X v = slug X w \<Longrightarrow> Slugger_slug X occ v = Slugger_slug X occ w"
  by (simp add: Slugger_slug_loop)

lemma slug_each_base:
  "map (slug X) vs = map (slug X) ws \<Longrightarrow> slug_each X occ vs = slug_each X occ ws"
proof (induction vs arbitrary: ws occ)
  case Nil
  then show ?case by simp
next
  case (Cons v vs)
  then obtain w ws' where ws: "ws = w # ws'" "slug X v = slug X w"
    "map (slug X) vs = map (slug X) ws'"
    by (cases ws) auto
  from Cons.IH [OF ws(3)] Slugger_slug_base [OF ws(2)] show ?case
    by (simp add: ws(1))
qed

lemma registry_Nil: "map_of [] = registry []"
  by (simp add: registry_def numbered_def fun_eq_iff)

lemma slug_each_loops: "slug_each X occ vs = slug_loops occ (map (slug X) vs)"
  by (induction vs arbitrary: occ) (simp_all add: Slugger_slug_loop)

lemma collision_free_iff:
  "collision_free bs \<longleftrightarrow>
     (\<forall>c\<in>set bs. \<forall>d m. 1 \<le> m \<and> m < count_list bs d \<longrightarrow> c \<noteq> d @ [45] @ number_to_string m)"
proof -
  have "collision bs c \<longleftrightarrow>
      (\<exists>d m. 1 \<le> m \<and> m < count_list bs d \<and> c = d @ [45] @ number_to_string m)" for c
  proof
    assume "collision bs c"
    then obtain d m where "m \<in> set [1..<count_list bs d]" "c = d @ [45] @ number_to_string m"
      unfolding collision_def list_ex_iff by blast
    moreover from this(1) have "1 \<le> m \<and> m < count_list bs d" by simp
    ultimately show "\<exists>d m. 1 \<le> m \<and> m < count_list bs d \<and> c = d @ [45] @ number_to_string m"
      by blast
  next
    assume "\<exists>d m. 1 \<le> m \<and> m < count_list bs d \<and> c = d @ [45] @ number_to_string m"
    then obtain d m where m: "1 \<le> m" "m < count_list bs d" "c = d @ [45] @ number_to_string m"
      by blast
    from m(2) have "d \<in> set bs" by (metis count_list_0_iff not_less_zero)
    moreover from m(1,2) have "m \<in> set [1..<count_list bs d]" by simp
    ultimately show "collision bs c"
      unfolding collision_def list_ex_iff using m(3) by blast
  qed
  then show ?thesis unfolding collision_free_def list_ex_iff by blast
qed

lemma collision_free_moved: "collision_free (p @ b # bs) \<Longrightarrow> collision_free ((b # p) @ bs)"
  by (simp add: collision_free_iff)

lemma slug_loops_numbered:
  "map_of occ = registry p \<Longrightarrow> collision_free (p @ bs) \<Longrightarrow>
     fst (slug_loops occ bs) = number_repeats p bs"
proof (induction bs arbitrary: occ p)
  case Nil
  show ?case by simp
next
  case (Cons b bs)
  note cf = Cons.prems(2) [unfolded collision_free_iff, rule_format]
  have step: "fst (slug_loop occ b b)
       = (let n = count_list p b in if n = 0 then b else b @ [45] @ number_to_string n)
     \<and> map_of (snd (slug_loop occ b b)) = registry (b # p)"
  proof (rule registry_step [OF Cons.prems(1)])
    show "\<not> numbered p b"
    proof
      assume "numbered p b"
      then obtain d m where m: "1 \<le> m" "m < count_list p d" "b = d @ [45] @ number_to_string m"
        unfolding numbered_def by blast
      from m(2) have "m < count_list (p @ b # bs) d" by simp
      with cf [of b m d] m(1,3) show False by simp
    qed
  next
    assume "b \<in> set p"
    then have c: "1 \<le> count_list p b"
      by (metis One_nat_def Suc_leI count_list_0_iff neq0_conv)
    show "b @ [45] @ number_to_string (count_list p b) \<notin> set p"
    proof
      assume "b @ [45] @ number_to_string (count_list p b) \<in> set p"
      then have "b @ [45] @ number_to_string (count_list p b) \<in> set (p @ b # bs)" by simp
      moreover have "count_list p b < count_list (p @ b # bs) b" by simp
      ultimately show False using cf [of _ "count_list p b" b] c by blast
    qed
  qed
  have "fst (slug_loops (snd (slug_loop occ b b)) bs) = number_repeats (b # p) bs"
    using step collision_free_moved [OF Cons.prems(2)] by (intro Cons.IH) simp_all
  with step show ?case by (simp add: Let_def case_prod_beta)
qed

lemma slug_loops_distinct:
  "distinct (fst (slug_loops occ bs))
   \<and> set (fst (slug_loops occ bs)) \<inter> fst ` set occ = {}
   \<and> fst ` set (snd (slug_loops occ bs)) = set (fst (slug_loops occ bs)) \<union> fst ` set occ"
proof (induction bs arbitrary: occ)
  case Nil
  show ?case by simp
next
  case (Cons b bs)
  let ?s = "fst (slug_loop occ b b)" and ?occ1 = "snd (slug_loop occ b b)"
  note step = slug_loop_fresh [of occ b b]
  note rest = Cons.IH [of ?occ1]
  have unfold: "slug_loops occ (b # bs)
      = (?s # fst (slug_loops ?occ1 bs), snd (slug_loops ?occ1 bs))"
    by (simp add: Let_def case_prod_beta)
  from step rest show ?case
    unfolding unfold by auto
qed

lemma length_number_repeats: "length (number_repeats seen bs) = length bs"
  by (induction bs arbitrary: seen) simp_all

lemma number_repeats_take: "take n (number_repeats seen bs) = number_repeats seen (take n bs)"
proof (induction bs arbitrary: seen n)
  case Nil
  show ?case by simp
next
  case (Cons b bs)
  then show ?case by (cases n) simp_all
qed

lemma slug_loops_take: "take n (fst (slug_loops occ bs)) = fst (slug_loops occ (take n bs))"
proof (induction bs arbitrary: occ n)
  case Nil
  show ?case by simp
next
  case (Cons b bs)
  then show ?case by (cases n) (simp_all add: Let_def case_prod_beta)
qed

lemma number_repeats_nth:
  "i < length bs \<Longrightarrow>
     number_repeats seen bs ! i
       = (let n = count_list seen (bs ! i) + count_list (take i bs) (bs ! i)
          in if n = 0 then bs ! i else bs ! i @ [45] @ number_to_string n)"
proof (induction bs arbitrary: seen i)
  case Nil
  then show ?case by simp
next
  case (Cons b bs)
  show ?case
  proof (cases i)
    case 0
    then show ?thesis by (simp add: Let_def)
  next
    case (Suc k)
    with Cons.prems have "k < length bs" by simp
    from Cons.IH [OF this, of "b # seen"] Suc show ?thesis by (simp add: Let_def)
  qed
qed

lemma occurrence_at:
  "m < count_list xs x \<Longrightarrow> \<exists>q<length xs. xs ! q = x \<and> count_list (take q xs) x = m"
proof (induction xs rule: rev_induct)
  case Nil
  then show ?case by simp
next
  case (snoc y ys)
  show ?case
  proof (cases "m < count_list ys x")
    case True
    from snoc.IH [OF this] obtain q where "q < length ys" "ys ! q = x"
      "count_list (take q ys) x = m" by blast
    then have "q < length (ys @ [y]) \<and> (ys @ [y]) ! q = x \<and> count_list (take q (ys @ [y])) x = m"
      by (simp add: nth_append)
    then show ?thesis by blast
  next
    case False
    with snoc.prems have "y = x" "count_list ys x = m" by (auto split: if_splits)
    then have "length ys < length (ys @ [y]) \<and> (ys @ [y]) ! length ys = x
        \<and> count_list (take (length ys) (ys @ [y])) x = m"
      by simp
    then show ?thesis by blast
  qed
qed

lemma collision_not_distinct:
  assumes "\<not> collision_free bs"
  shows "\<not> distinct (number_repeats [] bs)"
proof -
  from assms obtain c d m where c: "c \<in> set bs" and m: "1 \<le> m" "m < count_list bs d"
    and eq: "c = d @ [45] @ number_to_string m"
    unfolding collision_free_iff by blast
  from c have "0 < count_list bs c" by (metis count_list_0_iff neq0_conv)
  from occurrence_at [OF this] obtain p where p: "p < length bs" "bs ! p = c"
    "count_list (take p bs) c = 0" by blast
  from occurrence_at [OF m(2)] obtain q where q: "q < length bs" "bs ! q = d"
    "count_list (take q bs) d = m" by blast
  have "number_repeats [] bs ! p = c"
    using p by (simp add: number_repeats_nth)
  moreover have "number_repeats [] bs ! q = c"
    using q m(1) eq by (simp add: number_repeats_nth)
  moreover have "p \<noteq> q"
    using p(2) q(2) eq suffixed_longer [of d m] by auto
  ultimately show ?thesis
    using p(1) q(1) by (auto simp: distinct_conv_nth length_number_repeats)
qed

lemma numbering_iff:
  "fst (slug_loops [] bs) = number_repeats [] bs \<longleftrightarrow> collision_free bs"
proof
  assume "collision_free bs"
  then show "fst (slug_loops [] bs) = number_repeats [] bs"
    by (intro slug_loops_numbered registry_Nil) simp
next
  assume eq: "fst (slug_loops [] bs) = number_repeats [] bs"
  show "collision_free bs"
  proof (rule ccontr)
    assume "\<not> collision_free bs"
    then have "\<not> distinct (number_repeats [] bs)" by (rule collision_not_distinct)
    with slug_loops_distinct [of "[]" bs] eq show False by simp
  qed
qed

subsection \<open>The slug of one heading in terms of the ones before it\<close>

lemma length_slug_each: "length (fst (slug_each X occ vs)) = length vs"
  by (induction vs arbitrary: occ) (simp_all add: Let_def case_prod_beta)

lemma slug_each_take:
  "fst (slug_each X occ (take i vs)) = take i (fst (slug_each X occ vs))"
proof (cases "i \<le> length vs")
  case False
  then show ?thesis by (simp add: length_slug_each)
next
  case True
  have "fst (slug_each X occ (take i vs @ drop i vs))
          = fst (slug_each X occ (take i vs))
            @ fst (slug_each X (snd (slug_each X occ (take i vs))) (drop i vs))"
    by (simp only: slug_each_append) (simp add: Let_def case_prod_beta)
  then have "take i (fst (slug_each X occ vs))
      = take i (fst (slug_each X occ (take i vs))
            @ fst (slug_each X (snd (slug_each X occ (take i vs))) (drop i vs)))"
    by simp
  also have "\<dots> = fst (slug_each X occ (take i vs))"
    using True by (simp add: length_slug_each)
  finally show ?thesis by simp
qed

lemma slug_each_nth:
  assumes "i < length vs"
  shows "fst (slug_each X occ vs) ! i
           = fst (Slugger_slug X (snd (slug_each X occ (take i vs))) (vs ! i))"
proof -
  let ?occ = "snd (slug_each X occ (take i vs))"
  have split: "vs = take i vs @ vs ! i # drop (Suc i) vs"
    using assms by (simp add: id_take_nth_drop [symmetric])
  have "fst (slug_each X occ (take i vs @ vs ! i # drop (Suc i) vs))
          = fst (slug_each X occ (take i vs))
            @ fst (Slugger_slug X ?occ (vs ! i))
              # fst (slug_each X (snd (Slugger_slug X ?occ (vs ! i))) (drop (Suc i) vs))"
    by (simp only: slug_each_append) (simp add: Let_def case_prod_beta)
  with split have "fst (slug_each X occ vs)
          = fst (slug_each X occ (take i vs))
            @ fst (Slugger_slug X ?occ (vs ! i))
              # fst (slug_each X (snd (Slugger_slug X ?occ (vs ! i))) (drop (Suc i) vs))"
    by simp
  moreover have "length (fst (slug_each X occ (take i vs))) = i"
    using assms by (simp add: length_slug_each)
  ultimately show ?thesis by (metis nth_append_length)
qed

lemma registry_keys:
  "fst ` set (snd (slug_each X [] (take i vs))) = set (take i (fst (slug_each X [] vs)))"
  using slug_each_distinct [of X "[]" "take i vs"] by (simp add: slug_each_take)

lemma slug_loop_form:
  "own occ b \<Longrightarrow>
     fst (slug_loop occ b r) = r
     \<or> (\<exists>n. 1 \<le> n \<and> fst (slug_loop occ b r) = b @ [45] @ number_to_string n)"
proof (induction occ b r rule: slug_loop.induct)
  case (1 occ b r)
  show ?case
  proof (cases "own occ r")
    case False
    then show ?thesis by (simp add: slug_loop.simps [of occ b r])
  next
    case True
    from 1(2) obtain n where n: "map_of occ b = Some n"
      by (auto simp: own_def)
    let ?occ1 = "AList.update b (n + 1) occ"
    let ?r1 = "b @ [45] @ number_to_string (n + 1)"
    have "own ?occ1 b" by (simp add: own_def update_conv')
    from 1(1) [OF True n this]
    have "\<exists>m. 1 \<le> m \<and> fst (slug_loop ?occ1 b ?r1) = b @ [45] @ number_to_string m"
      by (metis le_add2)
    moreover have "slug_loop occ b r = slug_loop ?occ1 b ?r1"
      using True n by (simp add: slug_loop.simps [of occ b r])
    ultimately show ?thesis by simp
  qed
qed

lemma Slugger_slug_cases:
  "(slug X v \<notin> fst ` set occ \<longrightarrow> fst (Slugger_slug X occ v) = slug X v)
   \<and> (slug X v \<in> fst ` set occ \<longrightarrow>
        (\<exists>n. 1 \<le> n \<and> fst (Slugger_slug X occ v) = slug X v @ [45] @ number_to_string n))"
proof (intro conjI impI)
  assume "slug X v \<notin> fst ` set occ"
  then show "fst (Slugger_slug X occ v) = slug X v"
    by (simp add: Slugger_slug_loop slug_loop_new own_keys)
next
  assume in_keys: "slug X v \<in> fst ` set occ"
  then have o: "own occ (slug X v)" by (simp add: own_keys)
  have "fst (slug_loop occ (slug X v) (slug X v)) \<noteq> slug X v"
    using slug_loop_fresh [of occ "slug X v" "slug X v"] in_keys by metis
  with slug_loop_form [OF o, of "slug X v"]
  show "\<exists>n. 1 \<le> n \<and> fst (Slugger_slug X occ v) = slug X v @ [45] @ number_to_string n"
    by (simp add: Slugger_slug_loop)
qed

lemma assigned_nth:
  assumes "i < length (headings tree)"
  shows "(Some (base_slugs X tree ! i) \<notin> set (take i (assigned_slugs X tree)) \<longrightarrow>
            assigned_slugs X tree ! i = Some (base_slugs X tree ! i))
         \<and> (Some (base_slugs X tree ! i) \<in> set (take i (assigned_slugs X tree)) \<longrightarrow>
            (\<exists>n. 1 \<le> n \<and> assigned_slugs X tree ! i
                    = Some (base_slugs X tree ! i @ [45] @ number_to_string n)))"
proof -
  let ?vs = "heading_values X tree"
  let ?ss = "fst (slug_each X [] ?vs)"
  let ?occ = "snd (slug_each X [] (take i ?vs))"
  have len: "i < length ?vs" using assms by (simp add: heading_values_def)
  have nth: "assigned_slugs X tree ! i = Some (fst (Slugger_slug X ?occ (?vs ! i)))"
    using len by (simp add: assigned_slugs_eq length_slug_each slug_each_nth)
  have base: "base_slugs X tree ! i = slug X (?vs ! i)"
    using len by (simp add: base_slugs_def)
  have "set (take i (assigned_slugs X tree)) = Some ` set (take i ?ss)"
    by (simp add: assigned_slugs_eq take_map)
  then have keys: "Some b \<in> set (take i (assigned_slugs X tree)) \<longleftrightarrow> b \<in> fst ` set ?occ" for b
    by (auto simp: registry_keys)
  show ?thesis
    using Slugger_slug_cases [of X "?vs ! i" ?occ]
    unfolding nth base keys by simp
qed

section \<open>Text within the tables\<close>

lemma table_entries:
  "list_all (\<lambda>(u, b, m). 0xC0 \<le> u \<and> u < 0x100 \<and> u \<notin> set undecomposed_letters
       \<and> 0x300 \<le> m \<and> m \<le> 0x36F \<and> ((0x41 \<le> b \<and> b \<le> 0x5A) \<or> (0x61 \<le> b \<and> b \<le> 0x7A)))
     canonical_decomposition"
  by (simp add: canonical_decomposition_def undecomposed_letters_def)

lemma table_keys:
  "list_all (\<lambda>u. u \<in> set (map fst canonical_decomposition)
       \<or> u \<in> set [0xC6, 0xD0, 0xD7, 0xD8, 0xDE, 0xDF, 0xE6, 0xF0, 0xF7, 0xF8, 0xFE])
     [192..<256]"
  by (simp add: upt_rec_numeral canonical_decomposition_def)

lemma decomposed_unit:
  assumes "map_of canonical_decomposition u = Some (b, m)"
  shows "strip_unit u = [b] \<and> ((0x41 \<le> b \<and> b \<le> 0x5A) \<or> (0x61 \<le> b \<and> b \<le> 0x7A))
         \<and> u \<notin> set undecomposed_letters \<and> 0xC0 \<le> u"
proof -
  from assms have "(u, b, m) \<in> set canonical_decomposition" by (rule map_of_SomeD)
  with table_entries have
    "0xC0 \<le> u \<and> u < 0x100 \<and> u \<notin> set undecomposed_letters
       \<and> 0x300 \<le> m \<and> m \<le> 0x36F \<and> ((0x41 \<le> b \<and> b \<le> 0x5A) \<or> (0x61 \<le> b \<and> b \<le> 0x7A))"
    unfolding list_all_iff by fast
  then show ?thesis using assms by (auto simp: strip_unit_def decompose_def combining_mark_def)
qed

lemma undecomposed_unit:
  assumes "map_of canonical_decomposition u = None" and "tabled_unit u"
  shows "strip_unit u = [u]
         \<and> (u < 0xC0 \<or> u = 0x2192
              \<or> u \<in> set [0xC6, 0xD0, 0xD7, 0xD8, 0xDE, 0xDF, 0xE6, 0xF0, 0xF7, 0xF8, 0xFE])"
proof -
  have "u \<notin> set (map fst canonical_decomposition)"
    using assms(1) by (simp add: map_of_eq_None_iff)
  moreover have "u \<in> set [192..<256]" if "\<not> u < 0xC0" "u \<noteq> 0x2192"
    using that assms(2) unfolding tabled_unit_def
    by (simp only: set_upt atLeastLessThan_iff not_less) simp
  ultimately have "u < 0xC0 \<or> u = 0x2192
      \<or> u \<in> set [0xC6, 0xD0, 0xD7, 0xD8, 0xDE, 0xDF, 0xE6, 0xF0, 0xF7, 0xF8, 0xFE]"
    using table_keys unfolding list_all_iff by blast
  moreover have "\<not> combining_mark u"
    using assms(2) by (auto simp: tabled_unit_def combining_mark_def)
  ultimately show ?thesis using assms(1) by (simp add: strip_unit_def decompose_def)
qed

lemma lower_unit_letter:
  "(0x41 \<le> b \<and> b \<le> 0x5A) \<or> (0x61 \<le> b \<and> b \<le> 0x7A) \<Longrightarrow>
     0x61 \<le> lower_unit b \<and> lower_unit b \<le> 0x7A"
  unfolding lower_unit_def by (cases "b \<le> 0x5A") simp_all

lemma regex_unit_small_letter: "0x61 \<le> x \<Longrightarrow> x \<le> 0x7A \<Longrightarrow> \<not> regex_unit x"
  by (simp add: regex_unit_def)

lemma unit_slug_letter:
  assumes "(0x41 \<le> b \<and> b \<le> 0x5A) \<or> (0x61 \<le> b \<and> b \<le> 0x7A)"
  shows "map (\<lambda>u. if u = 32 then 45 else u) (filter (\<lambda>u. \<not> regex_unit u) (map lower_unit [b]))
       = [lower_unit b] \<and> 0x61 \<le> lower_unit b \<and> lower_unit b \<le> 0x7A"
proof -
  from lower_unit_letter [OF assms] have l: "0x61 \<le> lower_unit b" "lower_unit b \<le> 0x7A"
    by simp_all
  then have "\<not> regex_unit (lower_unit b)" by (rule regex_unit_small_letter)
  moreover from l have "lower_unit b \<noteq> 32" by simp
  ultimately show ?thesis using l by simp
qed

lemma unit_tabled: "tabled_unit u \<Longrightarrow> list_all tabled_unit (strip_unit u)"
proof (cases "map_of canonical_decomposition u")
  case None
  assume "tabled_unit u"
  with undecomposed_unit [OF None] show ?thesis by simp
next
  case (Some bm)
  obtain b m where "bm = (b, m)" by (cases bm)
  with Some decomposed_unit [of u b m] show ?thesis by (auto simp: tabled_unit_def)
qed

lemma undecomposed_slug:
  "strip_unit u = [u] \<Longrightarrow>
     unit_slug u = (if regex_unit (lower_unit u) then []
                    else [if lower_unit u = 32 then 45 else lower_unit u])"
  by (simp add: unit_slug_def)

lemma decomposed_slug:
  assumes "map_of canonical_decomposition u = Some (b, m)"
  shows "unit_slug u = [lower_unit b] \<and> 0x61 \<le> lower_unit b \<and> lower_unit b \<le> 0x7A"
  using decomposed_unit [OF assms] unit_slug_letter [of b] by (simp add: unit_slug_def)

lemma lower_unit_space: "lower_unit u = 32 \<longleftrightarrow> u = 32"
  by (simp add: lower_unit_def)

lemma lower_unit_hyphen: "lower_unit u = 45 \<longleftrightarrow> u = 45"
  by (simp add: lower_unit_def)

lemma lower_unit_not_upper: "\<not> ascii_capital (lower_unit u)"
  by (simp add: lower_unit_def ascii_capital_def)

lemma lower_unit_ascii: "u < 128 \<Longrightarrow> lower_unit u < 128"
  by (simp add: lower_unit_def)

lemma regex_unit_separators:
  "\<not> regex_unit (lower_unit 32) \<and> \<not> regex_unit (lower_unit 45)"
  by (simp add: regex_unit_def lower_unit_def)

lemma regex_unit_supplement:
  "128 \<le> u \<Longrightarrow> u < 0xC0 \<Longrightarrow> u \<notin> set undecomposed_letters \<Longrightarrow> regex_unit (lower_unit u)"
proof -
  assume a: "128 \<le> u" "u < 0xC0" "u \<notin> set undecomposed_letters"
  then have "lower_unit u = u" by (simp add: lower_unit_def)
  moreover from a have "u \<noteq> 0xAA" "u \<noteq> 0xB5" "u \<noteq> 0xBA"
    by (simp_all add: undecomposed_letters_def)
  with a(1,2) have "u \<le> 0xA9 \<or> (0xAB \<le> u \<and> u \<le> 0xB4) \<or> (0xB6 \<le> u \<and> u \<le> 0xB9)
      \<or> (0xBB \<le> u \<and> u \<le> 0xBF)"
    by arith
  with a(1) have "regex_unit u" unfolding regex_unit_def by arith
  ultimately show ?thesis by simp
qed

lemma regex_unit_signs:
  "regex_unit (lower_unit 0xD7) \<and> regex_unit (lower_unit 0xF7) \<and> regex_unit (lower_unit 0x2192)"
  by (simp add: regex_unit_def lower_unit_def)

lemma unit_hyphens:
  "tabled_unit u \<Longrightarrow> count_list (unit_slug u) 45 = (if u = 32 \<or> u = 45 then 1 else 0)"
proof (cases "map_of canonical_decomposition u")
  case None
  assume "tabled_unit u"
  with undecomposed_unit [OF None] have "strip_unit u = [u]" by simp
  then show ?thesis
    using regex_unit_separators
    by (auto simp: undecomposed_slug lower_unit_space lower_unit_hyphen)
next
  case (Some bm)
  obtain b m where "bm = (b, m)" by (cases bm)
  with Some have e: "map_of canonical_decomposition u = Some (b, m)" by simp
  from decomposed_slug [OF e] decomposed_unit [OF e] show ?thesis by auto
qed

lemma unit_lower_case:
  "tabled_unit u \<Longrightarrow> list_all (\<lambda>x. \<not> ascii_capital x) (unit_slug u)"
proof (cases "map_of canonical_decomposition u")
  case None
  assume "tabled_unit u"
  with undecomposed_unit [OF None] have "strip_unit u = [u]" by simp
  then show ?thesis
    using lower_unit_not_upper [of u] by (simp add: undecomposed_slug ascii_capital_def)
next
  case (Some bm)
  obtain b m where "bm = (b, m)" by (cases bm)
  with Some have e: "map_of canonical_decomposition u = Some (b, m)" by simp
  from decomposed_slug [OF e] show ?thesis by (simp add: ascii_capital_def)
qed

lemma unit_ascii:
  assumes "tabled_unit u" and "u \<notin> set undecomposed_letters"
  shows "list_all (\<lambda>x. x < 128) (unit_slug u)"
proof (cases "map_of canonical_decomposition u")
  case None
  from undecomposed_unit [OF None assms(1)] have s: "strip_unit u = [u]"
    and r: "u < 0xC0 \<or> u = 0x2192
      \<or> u \<in> set [0xC6, 0xD0, 0xD7, 0xD8, 0xDE, 0xDF, 0xE6, 0xF0, 0xF7, 0xF8, 0xFE]"
    by simp_all
  show ?thesis
  proof (cases "u < 128")
    case True
    then show ?thesis using lower_unit_ascii [of u] by (simp add: undecomposed_slug [OF s])
  next
    case False
    have "regex_unit (lower_unit u)"
    proof (cases "u < 0xC0")
      case True
      with False assms(2) show ?thesis by (intro regex_unit_supplement) simp_all
    next
      case False
      with r assms(2) have "u = 0xD7 \<or> u = 0xF7 \<or> u = 0x2192"
        by (auto simp: undecomposed_letters_def)
      then show ?thesis using regex_unit_signs by auto
    qed
    then show ?thesis by (simp add: undecomposed_slug [OF s])
  qed
next
  case (Some bm)
  obtain b m where "bm = (b, m)" by (cases bm)
  with Some have e: "map_of canonical_decomposition u = Some (b, m)" by simp
  from decomposed_slug [OF e] show ?thesis by simp
qed

subsection \<open>Strings\<close>

lemma lower_unit_tabled: "tabled_unit u \<Longrightarrow> tabled_unit (lower_unit u)"
  by (auto simp: lower_unit_def tabled_unit_def)

lemma stripDiacritics_tabled:
  "tabled str \<Longrightarrow> stripDiacritics X str = concat (map strip_unit str)"
  unfolding strip_unit_def
  by (simp add: stripDiacritics_def normalize_NFD_def filter_concat comp_def)

lemma stripDiacritics_closed: "tabled str \<Longrightarrow> tabled (stripDiacritics X str)"
proof -
  assume l: "tabled str"
  then have "list_all tabled_unit (concat (map strip_unit str))"
    unfolding tabled_def by (induction str) (simp_all add: unit_tabled)
  with l show ?thesis by (simp add: stripDiacritics_tabled tabled_def)
qed

lemma slug_tabled:
  assumes "tabled v"
  shows "slug X v = map (\<lambda>u. if u = 32 then 45 else u)
                      (filter (\<lambda>u. \<not> regex_unit u) (map lower_unit v))"
proof -
  from assms have "tabled (map lower_unit v)"
    by (simp add: tabled_def list_all_iff lower_unit_tabled)
  with assms show ?thesis by (simp add: slug_def toLowerCase_def replace_regex_def)
qed

lemma base_tabled:
  assumes "tabled str"
  shows "slug X (stripDiacritics X str) = concat (map unit_slug str)"
proof -
  have "slug X (stripDiacritics X str)
          = map (\<lambda>u. if u = 32 then 45 else u)
              (filter (\<lambda>u. \<not> regex_unit u) (map lower_unit (concat (map strip_unit str))))"
    using slug_tabled [OF stripDiacritics_closed [OF assms]]
    by (simp add: stripDiacritics_tabled [OF assms])
  also have "\<dots> = concat (map unit_slug str)"
    unfolding unit_slug_def by (simp add: map_concat filter_concat comp_def)
  finally show ?thesis .
qed

lemma base_hyphens:
  "tabled str \<Longrightarrow>
     count_list (slug X (stripDiacritics X str)) 45 = count_list str 32 + count_list str 45"
proof -
  assume l: "tabled str"
  then have "count_list (concat (map unit_slug str)) 45 = count_list str 32 + count_list str 45"
    unfolding tabled_def by (induction str) (simp_all add: unit_hyphens)
  with l show ?thesis by (simp add: base_tabled)
qed

lemma base_lower_case:
  "tabled str \<Longrightarrow>
     list_all (\<lambda>x. \<not> ascii_capital x) (slug X (stripDiacritics X str))"
proof -
  assume l: "tabled str"
  then have "list_all (\<lambda>x. \<not> ascii_capital x) (concat (map unit_slug str))"
    unfolding tabled_def by (induction str) (simp_all add: unit_lower_case)
  with l show ?thesis by (simp add: base_tabled)
qed

lemma ascii_reducible_tabled: "ascii_reducible str \<Longrightarrow> tabled str"
  by (simp add: ascii_reducible_def tabled_def list_all_iff)

lemma base_ascii:
  "ascii_reducible str \<Longrightarrow> ascii_only (slug X (stripDiacritics X str))"
proof -
  assume a: "ascii_reducible str"
  then have "list_all (\<lambda>x. x < 128) (concat (map unit_slug str))"
    unfolding ascii_reducible_def by (induction str) (simp_all add: unit_ascii)
  with ascii_reducible_tabled [OF a] show ?thesis by (simp add: base_tabled ascii_only_def)
qed

lemma slug_no_space: "32 \<notin> set (slug X v)"
  by (auto simp: slug_def)

lemma number_no_space: "32 \<notin> set (number_to_string n)"
  using number_to_string_digits [of n] by (auto simp: list_all_iff)

lemma number_ascii: "ascii_only (number_to_string n)"
  using number_to_string_digits [of n] by (auto simp: list_all_iff ascii_only_def)

lemma empty_base: "slug X (stripDiacritics X []) = []"
  by (simp add: base_tabled tabled_def)

subsection \<open>The last step of the slug function\<close>

lemma slug_hyphenated: "slug X v = map hyphenated (replace_regex X (toLowerCase X v))"
  by (simp add: slug_def hyphenated_def [abs_def])

lemma hyphenated_count:
  "count_list (map hyphenated w) 45 = count_list w 32 + count_list w 45"
  by (induction w) (simp_all add: hyphenated_def)

lemma hyphenated_ascii: "ascii_only (map hyphenated w) \<longleftrightarrow> ascii_only w"
  by (induction w) (simp_all add: ascii_only_def hyphenated_def)

subsection \<open>Plain text and the letters that stay\<close>

lemma plain_not_decomposed: "plain_unit u \<Longrightarrow> map_of canonical_decomposition u = None"
proof (cases "map_of canonical_decomposition u")
  case None
  then show ?thesis .
next
  case (Some bm)
  assume p: "plain_unit u"
  obtain b m where "bm = (b, m)" by (cases bm)
  with Some decomposed_unit [of u b m] have "0xC0 \<le> u" by simp
  with p show ?thesis by (simp add: plain_unit_def)
qed

lemma plain_tabled_unit: "plain_unit u \<Longrightarrow> tabled_unit u"
  by (auto simp: plain_unit_def tabled_unit_def)

lemma plain_lower: "plain_unit u \<Longrightarrow> lower_unit u = (if ascii_capital u then u + 32 else u)"
  by (auto simp: plain_unit_def lower_unit_def ascii_capital_def)

lemma plain_kept: "plain_unit u \<Longrightarrow> \<not> regex_unit (lower_unit u)"
proof -
  assume p: "plain_unit u"
  show ?thesis
  proof (cases "(0x41 \<le> u \<and> u \<le> 0x5A) \<or> (0x61 \<le> u \<and> u \<le> 0x7A)")
    case True
    from lower_unit_letter [OF this] show ?thesis
      by (simp add: regex_unit_small_letter)
  next
    case False
    with p have d: "(0x30 \<le> u \<and> u \<le> 0x39) \<or> u = 32 \<or> u = 45 \<or> u = 0x5F"
      unfolding plain_unit_def by blast
    then have "lower_unit u = u" by (auto simp: lower_unit_def)
    moreover from d have "\<not> regex_unit u"
      unfolding regex_unit_def by (elim disjE) simp_all
    ultimately show ?thesis by simp
  qed
qed

lemma plain_unit_slug:
  "plain_unit u \<Longrightarrow> unit_slug u = [hyphenated (if ascii_capital u then u + 32 else u)]"
proof -
  assume p: "plain_unit u"
  from undecomposed_unit [OF plain_not_decomposed [OF p] plain_tabled_unit [OF p]]
  have "strip_unit u = [u]" by simp
  from undecomposed_slug [OF this] plain_kept [OF p] plain_lower [OF p]
  show ?thesis by (simp add: hyphenated_def)
qed

lemma plain_tabled: "plain str \<Longrightarrow> tabled str"
  by (simp add: plain_def tabled_def list_all_iff plain_tabled_unit)

lemma base_plain:
  "plain str \<Longrightarrow>
     slug X (stripDiacritics X str)
       = map (\<lambda>u. hyphenated (if ascii_capital u then u + 32 else u)) str"
proof -
  assume p: "plain str"
  then have "concat (map unit_slug str)
      = map (\<lambda>u. hyphenated (if ascii_capital u then u + 32 else u)) str"
    unfolding plain_def by (induction str) (simp_all add: plain_unit_slug)
  with plain_tabled [OF p] show ?thesis by (simp add: base_tabled)
qed

lemma undecomposed_letters_entries:
  "list_all (\<lambda>u. map_of canonical_decomposition u = None) undecomposed_letters"
  by (simp add: undecomposed_letters_def canonical_decomposition_def)

lemma undecomposed_letters_kept:
  "list_all (\<lambda>u. \<not> regex_unit (lower_unit u) \<and> lower_unit u \<noteq> 32 \<and> 128 \<le> lower_unit u
       \<and> tabled_unit u) undecomposed_letters"
  by (simp add: undecomposed_letters_def lower_unit_def regex_unit_def tabled_unit_def)

lemma kept_letters:
  assumes "u \<in> set undecomposed_letters"
  shows "unit_slug u = [lower_unit u] \<and> 128 \<le> lower_unit u"
proof -
  from assms undecomposed_letters_entries have n: "map_of canonical_decomposition u = None"
    unfolding list_all_iff by blast
  from assms undecomposed_letters_kept have k: "\<not> regex_unit (lower_unit u)"
    "lower_unit u \<noteq> 32" "128 \<le> lower_unit u" "tabled_unit u"
    unfolding list_all_iff by blast+
  from undecomposed_unit [OF n k(4)] have "strip_unit u = [u]" by simp
  from undecomposed_slug [OF this] k show ?thesis by simp
qed

lemma kept_letter_in_base:
  assumes "tabled str" and "u \<in> set str" and "u \<in> set undecomposed_letters"
  shows "lower_unit u \<in> set (slug X (stripDiacritics X str)) \<and> 128 \<le> lower_unit u"
proof -
  from kept_letters [OF assms(3)] have k: "unit_slug u = [lower_unit u]" "128 \<le> lower_unit u"
    by simp_all
  from assms(2) k(1) have "lower_unit u \<in> set (concat (map unit_slug str))" by force
  with assms(1) k(2) show ?thesis by (simp add: base_tabled)
qed

lemma base_ascii_iff:
  assumes "tabled str"
  shows "ascii_only (slug X (stripDiacritics X str)) \<longleftrightarrow> ascii_reducible str"
proof
  assume "ascii_reducible str"
  then show "ascii_only (slug X (stripDiacritics X str))" by (rule base_ascii)
next
  assume a: "ascii_only (slug X (stripDiacritics X str))"
  show "ascii_reducible str"
  proof (rule ccontr)
    assume "\<not> ascii_reducible str"
    with assms obtain u where u: "u \<in> set str" "u \<in> set undecomposed_letters"
      unfolding ascii_reducible_def tabled_def list_all_iff by blast
    from kept_letter_in_base [OF assms u, of X] a show False
      unfolding ascii_only_def list_all_iff by fastforce
  qed
qed

subsection \<open>A counter is changed by the headings of its base slug only\<close>

lemma slug_loop_other:
  "k \<noteq> b \<Longrightarrow> own occ k \<Longrightarrow> (own occ r \<Longrightarrow> own occ b) \<Longrightarrow>
     map_of (snd (slug_loop occ b r)) k = map_of occ k"
proof (induction occ b r rule: slug_loop.induct)
  case (1 occ b r)
  show ?case
  proof (cases "own occ r")
    case False
    with 1(3) have "r \<noteq> k" by auto
    with False show ?thesis
      by (simp add: slug_loop.simps [of occ b r] update_conv')
  next
    case True
    with 1(4) obtain n where n: "map_of occ b = Some n"
      by (auto simp: own_def)
    let ?occ1 = "AList.update b (n + 1) occ"
    let ?r1 = "b @ [45] @ number_to_string (n + 1)"
    have same: "map_of ?occ1 k = map_of occ k"
      using 1(2) by (simp add: update_conv')
    then have "own ?occ1 k" using 1(3) by (simp add: own_def)
    moreover have "own ?occ1 b" by (simp add: own_def update_conv')
    ultimately have "map_of (snd (slug_loop ?occ1 b ?r1)) k = map_of ?occ1 k"
      using 1(1) [OF True n 1(2)] by simp
    moreover have "slug_loop occ b r = slug_loop ?occ1 b ?r1"
      using True n by (simp add: slug_loop.simps [of occ b r])
    ultimately show ?thesis using same by simp
  qed
qed

lemma slug_each_other:
  "own occ k \<Longrightarrow> k \<notin> slug X ` set vs \<Longrightarrow>
     map_of (snd (slug_each X occ vs)) k = map_of occ k"
proof (induction vs arbitrary: occ)
  case Nil
  show ?case by simp
next
  case (Cons v vs)
  let ?occ1 = "snd (Slugger_slug X occ v)"
  from Cons.prems have ne: "k \<noteq> slug X v" by auto
  have 1: "map_of ?occ1 k = map_of occ k"
    using slug_loop_other [OF ne Cons.prems(1), of "slug X v"] by (simp add: Slugger_slug_loop)
  then have "own ?occ1 k" using Cons.prems(1) by (simp add: own_def)
  from Cons.IH [OF this] Cons.prems(2) 1 show ?case
    by (simp add: Let_def case_prod_beta)
qed

lemma slug_each_snd_append:
  "snd (slug_each X occ (us @ vs)) = snd (slug_each X (snd (slug_each X occ us)) vs)"
  by (simp add: slug_each_append Let_def case_prod_beta)

lemma first_and_second:
  assumes ij: "i < j" "j < length vs"
    and b: "slug X (vs ! i) = b" "slug X (vs ! j) = b"
    and fresh: "b \<notin> set (take i (fst (slug_each X [] vs)))"
    and between: "b \<notin> slug X ` set (drop (Suc i) (take j vs))"
    and free: "b @ [45] @ number_to_string 1 \<notin> set (take j (fst (slug_each X [] vs)))"
  shows "fst (slug_each X [] vs) ! i = b
         \<and> fst (slug_each X [] vs) ! j = b @ [45] @ number_to_string 1"
proof -
  let ?occ_i = "snd (slug_each X [] (take i vs))"
  let ?occ_j = "snd (slug_each X [] (take j vs))"
  let ?mid = "drop (Suc i) (take j vs)"
  have i: "i < length vs" using ij by simp
  have "\<not> own ?occ_i b"
    using fresh by (simp add: own_keys registry_keys)
  then have first: "Slugger_slug X ?occ_i (vs ! i) = (b, AList.update b 0 ?occ_i)"
    by (simp add: Slugger_slug_loop b(1) slug_loop_new)
  then have 1: "fst (slug_each X [] vs) ! i = b"
    by (simp add: slug_each_nth [OF i])
  have "i < length (take j vs)" using ij by simp
  from id_take_nth_drop [OF this]
  have split: "take j vs = take i vs @ vs ! i # ?mid"
    using ij by (simp add: min_def)
  have "snd (slug_each X [] (take i vs @ vs ! i # ?mid))
          = snd (slug_each X (AList.update b 0 ?occ_i) ?mid)"
    by (simp add: slug_each_snd_append first Let_def case_prod_beta)
  then have "?occ_j = snd (slug_each X (AList.update b 0 ?occ_i) ?mid)"
    using split by simp
  moreover have "own (AList.update b 0 ?occ_i) b"
    by (simp add: own_def update_conv')
  ultimately have "map_of ?occ_j b = map_of (AList.update b 0 ?occ_i) b"
    using slug_each_other [OF _ between] by simp
  then have cnt: "map_of ?occ_j b = Some 0" by (simp add: update_conv')
  have "\<not> own ?occ_j (b @ [45] @ number_to_string (0 + 1))"
    using free by (simp add: own_keys registry_keys)
  from slug_loop_repeat [OF cnt this]
  have "fst (Slugger_slug X ?occ_j (vs ! j)) = b @ [45] @ number_to_string 1"
    by (simp add: Slugger_slug_loop b(2))
  then have "fst (slug_each X [] vs) ! j = b @ [45] @ number_to_string 1"
    by (simp add: slug_each_nth [OF ij(2)])
  with 1 show ?thesis ..
qed

section \<open>The frame\<close>

lemma visitor_frame:
  "visitor X occ (Node t v d r cs) = (n', occ') \<Longrightarrow>
     ntype n' = t \<and> nvalue n' = v \<and> nrest n' = r \<and> ids_written d (ndata n')"
  by (auto simp: visitor_def Let_def ids_written_def split: prod.splits option.splits)

lemma visit_children_frame:
  "(\<And>c occ. c \<in> set cs \<Longrightarrow> same_but_ids c (fst (visit X occ c))) \<Longrightarrow>
     list_all2 same_but_ids cs (fst (visit_children X occ cs))"
  by (induction cs arbitrary: occ) (simp_all add: Let_def case_prod_beta)

lemma visit_frame: "same_but_ids n (fst (visit X occ n))"
proof (induction n arbitrary: occ)
  case (Node t v d r cs)
  have kids: "\<And>o1. list_all2 same_but_ids cs (fst (visit_children X o1 cs))"
    using Node.IH by (rule visit_children_frame)
  show ?case
  proof (cases "t = ''heading''")
    case False
    then show ?thesis using kids [of occ] by (simp add: Let_def case_prod_beta)
  next
    case True
    obtain n1 occ1 where v: "visitor X occ (Node t v d r cs) = (n1, occ1)"
      by (cases "visitor X occ (Node t v d r cs)")
    from visitor_frame [OF v] kids [of occ1] True v show ?thesis
      by (simp add: Let_def case_prod_beta)
  qed
qed

section \<open>Evaluating documents\<close>

lemma assigned_by_base:
  "assigned_slugs X tree = map Some (fst (slug_loops [] (base_slugs X tree)))"
  by (simp add: assigned_slugs_eq slug_each_loops base_slugs_def)

lemmas unit_eval = unit_slug_def strip_unit_def decompose_def canonical_decomposition_def
  combining_mark_def lower_unit_def regex_unit_def

lemma headings_children_titled:
  "headings_children (map (\<lambda>t. heading_node [text_node t]) ts)
     = map (\<lambda>t. heading_node [text_node t]) ts"
  by (induction ts) (simp_all add: heading_node_def text_node_def)

lemma headings_titled: "headings (titled ts) = map (\<lambda>t. heading_node [text_node t]) ts"
  by (simp add: titled_def root_node_def headings_children_titled)

lemma heading_text_titled: "heading_text (heading_node [text_node t]) = t"
  by (simp add: heading_text_def heading_node_def text_node_def)

lemma base_slugs_titled:
  "list_all tabled ts \<Longrightarrow> base_slugs X (titled ts) = map (\<lambda>t. concat (map unit_slug t)) ts"
  by (simp add: base_slugs_def heading_values_def headings_titled comp_def heading_text_titled
      base_tabled list_all_iff)

lemma base_slugs_nth:
  "i < length (headings tree) \<Longrightarrow>
     base_slugs X tree ! i = slug X (stripDiacritics X (heading_text (headings tree ! i)))"
  by (simp add: base_slugs_def heading_values_def)

lemma base_slugs_tabled:
  "list_all (\<lambda>h. tabled (heading_text h)) (headings tree) \<Longrightarrow>
     base_slugs X tree = map (\<lambda>h. concat (map unit_slug (heading_text h))) (headings tree)"
  by (simp add: base_slugs_def heading_values_def base_tabled list_all_iff)

lemma parameter_not_consulted:
  "list_all (\<lambda>h. tabled (heading_text h)) (headings tree) \<Longrightarrow>
     assigned_slugs X tree = assigned_slugs Y tree"
  by (simp add: assigned_by_base base_slugs_tabled)

lemma assigned_eval:
  assumes "list_all (\<lambda>h. tabled (heading_text h)) (headings tree)"
    and "map (\<lambda>h. concat (map unit_slug (heading_text h))) (headings tree) = bs"
    and "fst (slug_loops [] bs) = ss"
  shows "base_slugs X tree = bs \<and> assigned_slugs X tree = map Some ss"
  using assms by (simp add: assigned_by_base base_slugs_tabled)

lemmas tree_eval = heading_text_def heading_node_def text_node_def root_node_def titled_def
  tabled_def tabled_unit_def ascii_def

lemma titled_eval:
  assumes "list_all tabled ts"
    and "map (\<lambda>t. concat (map unit_slug t)) ts = bs"
    and "fst (slug_loops [] bs) = ss"
  shows "base_slugs X (titled ts) = bs \<and> assigned_slugs X (titled ts) = map Some ss"
  using assms by (simp add: assigned_by_base base_slugs_titled)



lemma heading_text_direct: "heading_text n = direct_text (children n)"
proof -
  have "concat (map (\<lambda>c. case nvalue c of Some v \<Rightarrow> v | None \<Rightarrow> [])
          (filter (\<lambda>c. ntype c = ''text'' \<or> ntype c = ''inlineCode'') cs)) = direct_text cs" for cs :: "'a node list"
    by (induction cs) (simp_all add: literal_def)
  then show ?thesis by (simp add: heading_text_def)
qed

lemma direct_text_append: "direct_text (cs @ ds) = direct_text cs @ direct_text ds"
  by (induction cs) simp_all

lemma unit_outside_pattern: "list_all (\<lambda>x. \<not> regex_unit x) (unit_slug u)"
proof -
  have "\<not> regex_unit 45" by (simp add: regex_unit_def)
  then show ?thesis by (simp add: unit_slug_def list_all_iff) blast
qed

lemma base_outside_pattern:
  assumes "tabled str"
  shows "list_all (\<lambda>x. \<not> regex_unit x) (slug X (stripDiacritics X str))"
proof -
  have "list_all (\<lambda>x. \<not> regex_unit x) (concat (map unit_slug str))"
    by (induction str) (simp_all add: unit_outside_pattern)
  with assms show ?thesis by (simp add: base_tabled)
qed

lemma base_surviving:
  "slug X (stripDiacritics X str) = map hyphenated (surviving_text X str)"
  by (simp add: slug_hyphenated surviving_text_def)

lemma assigned_forms:
  assumes "i < length (headings tree)"
  shows "assigned_slugs X tree ! i = Some (base_slugs X tree ! i)
         \<or> (\<exists>n. 1 \<le> n \<and> assigned_slugs X tree ! i
                = Some (base_slugs X tree ! i @ [45] @ number_to_string n))"
  using assigned_nth [OF assms, of X] by blast

lemma length_assigned_slugs: "length (assigned_slugs X tree) = length (headings tree)"
  by (simp add: assigned_slugs_eq length_slug_each heading_values_def)

lemma assigned_earlier:
  assumes "i < j" and "j < length (headings tree)"
  shows "Some (base_slugs X tree ! i) \<in> set (take j (assigned_slugs X tree))"
proof -
  have i: "i < length (headings tree)" using assms by simp
  have sub: "set (take i (assigned_slugs X tree)) \<subseteq> set (take j (assigned_slugs X tree))"
    using assms(1) by (intro set_take_subset_set_take) simp
  show ?thesis
  proof (cases "Some (base_slugs X tree ! i) \<in> set (take i (assigned_slugs X tree))")
    case True
    with sub show ?thesis by blast
  next
    case False
    with assigned_nth [OF i, of X]
    have "assigned_slugs X tree ! i = Some (base_slugs X tree ! i)" by blast
    moreover have "i < length (take j (assigned_slugs X tree))"
      using assms by (simp add: length_assigned_slugs)
    then have "take j (assigned_slugs X tree) ! i \<in> set (take j (assigned_slugs X tree))"
      by (rule nth_mem)
    ultimately show ?thesis using assms(1) by simp
  qed
qed

lemma later_is_suffixed:
  assumes "i < j" and "j < length (headings tree)"
    and "base_slugs X tree ! j = base_slugs X tree ! i"
  shows "\<exists>n. 1 \<le> n \<and> assigned_slugs X tree ! j
                = Some (base_slugs X tree ! i @ [45] @ number_to_string n)"
  using assigned_nth [OF assms(2), of X] assigned_earlier [OF assms(1,2), of X] assms(3)
  by simp

lemma first_and_second_assigned:
  assumes "i < j" and "j < length (headings tree)"
    and "base_slugs X tree ! j = base_slugs X tree ! i"
    and "Some (base_slugs X tree ! i) \<notin> set (take i (assigned_slugs X tree))"
    and "base_slugs X tree ! i \<notin> set (drop (Suc i) (take j (base_slugs X tree)))"
    and "Some (base_slugs X tree ! i @ [45] @ number_to_string 1)
           \<notin> set (take j (assigned_slugs X tree))"
  shows "assigned_slugs X tree ! i = Some (base_slugs X tree ! i)
         \<and> assigned_slugs X tree ! j = Some (base_slugs X tree ! i @ [45] @ number_to_string 1)"
proof -
  let ?vs = "heading_values X tree"
  let ?b = "base_slugs X tree ! i"
  have len: "j < length ?vs" "i < length ?vs"
    using assms(1,2) by (simp_all add: heading_values_def)
  have bi: "slug X (?vs ! i) = ?b" and bj: "slug X (?vs ! j) = ?b"
    using len assms(3) by (simp_all add: base_slugs_def)
  have fresh: "?b \<notin> set (take i (fst (slug_each X [] ?vs)))"
    using assms(4) by (auto simp: assigned_slugs_eq take_map)
  have between: "?b \<notin> slug X ` set (drop (Suc i) (take j ?vs))"
    using assms(5) by (simp add: base_slugs_def take_map drop_map)
  have free: "?b @ [45] @ number_to_string 1 \<notin> set (take j (fst (slug_each X [] ?vs)))"
    using assms(6) by (auto simp: assigned_slugs_eq take_map)
  from first_and_second [OF assms(1) len(1) bi bj fresh between free]
  show ?thesis
    using len by (simp add: assigned_slugs_eq length_slug_each)
qed

lemma assigned_ascii:
  assumes "i < length (headings tree)"
  shows "\<exists>s. assigned_slugs X tree ! i = Some s
             \<and> set (base_slugs X tree ! i) \<subseteq> set s
             \<and> (ascii_only s \<longleftrightarrow> ascii_only (base_slugs X tree ! i))"
proof -
  have "ascii_only (base_slugs X tree ! i @ [45] @ number_to_string n)
          \<longleftrightarrow> ascii_only (base_slugs X tree ! i)" for n
    using number_ascii [of n] by (simp add: ascii_only_def)
  with assigned_forms [OF assms, of X] show ?thesis by auto
qed

section \<open>The claims\<close>

text \<open>
  C1. After one invocation of \<open>remarkAsciiSlugs\<close> on any tree, the slugs written to
  the heading nodes are pairwise distinct, in \<^verbatim>\<open>data.id\<close> and in
  \<^verbatim>\<open>data.hProperties.id\<close> alike.
\<close>

theorem slugs_pairwise_distinct:
  "distinct (map node_id (headings (remarkAsciiSlugs X tree)))
   \<and> distinct (map node_hProperties_id (headings (remarkAsciiSlugs X tree)))"
proof -
  have "distinct (map Some (fst (slug_each X [] (heading_values X tree))))"
    using slug_each_distinct [of X "[]" "heading_values X tree"]
    by (simp add: distinct_map)
  then show ?thesis
    using remark_traversed [of X tree]
    by (simp add: traversed_def heading_values_def Let_def)
qed

text \<open>
  C2 does not hold as stated. A heading whose only child is an image has the empty text;
  the slugger turns the empty string into the empty slug, and the plugin writes it to
  both ids as it is.
\<close>

theorem empty_heading_counterexample:
  "remarkAsciiSlugs identity_beyond
     (root_node [heading_node [Node ''image'' None None () []]])
   = root_node
       [Node ''heading'' None
          (Some \<lparr>data_id = Some [],
                 hProperties = Some \<lparr>prop_id = Some [], prop_rest = []\<rparr>,
                 data_rest = []\<rparr>)
          () [Node ''image'' None None () []]]"
  by code_simp

text \<open>
  C2, in the form that holds. A heading with empty text is assigned the empty slug when
  no earlier heading of the document has been assigned the empty slug, and otherwise a
  hyphen followed by a counter from 1 on, which is not empty.
\<close>

theorem empty_heading_slug:
  assumes "i < length (headings tree)" and "heading_text (headings tree ! i) = []"
  shows "(Some [] \<notin> set (take i (assigned_slugs X tree)) \<longrightarrow>
            assigned_slugs X tree ! i = Some [])
         \<and> (Some [] \<in> set (take i (assigned_slugs X tree)) \<longrightarrow>
              (\<exists>n. 1 \<le> n \<and> assigned_slugs X tree ! i = Some (45 # number_to_string n)))"
proof -
  have "base_slugs X tree ! i = []"
    using assms by (simp add: base_slugs_nth empty_base)
  with assigned_nth [OF assms(1), of X] show ?thesis by simp
qed

theorem empty_heading_slug_witness:
  "assigned_slugs identity_beyond
     (root_node [heading_node [Node ''image'' None None () []], heading_node []]) ! 0 = Some []
   \<and> (\<exists>n. 1 \<le> n \<and>
        assigned_slugs identity_beyond
          (root_node [heading_node [Node ''image'' None None () []], heading_node []]) ! 1
          = Some (45 # number_to_string n))"
proof -
  let ?doc = "root_node [heading_node [Node ''image'' None None () []], heading_node []]"
  have "base_slugs identity_beyond ?doc = [[], []]
        \<and> assigned_slugs identity_beyond ?doc = map Some [[], [45, 49]]"
    by (rule assigned_eval) (simp add: tree_eval, simp add: tree_eval, code_simp)
  then have a: "assigned_slugs identity_beyond ?doc = [Some [], Some [45, 49]]" by simp
  have h: "headings ?doc = [heading_node [Node ''image'' None None () []], heading_node []]"
    by (simp add: tree_eval)
  have "0 < length (headings ?doc)" "heading_text (headings ?doc ! 0) = []"
    "1 < length (headings ?doc)" "heading_text (headings ?doc ! 1) = []"
    by (simp_all add: h) (simp_all add: tree_eval)
  from empty_heading_slug [OF this(1,2), of identity_beyond]
    empty_heading_slug [OF this(3,4), of identity_beyond]
  show ?thesis by (simp add: a)
qed

text \<open>
  C3 does not hold as stated. Three headings titled foo, foo and foo-1: the third is the
  first heading with the base slug foo-1, but that slug was made up for the second
  heading, so the third is assigned foo-1-1 and not its base slug.
\<close>

theorem suffixed_base_counterexample:
  "base_slugs identity_beyond (titled [ascii ''foo'', ascii ''foo'', ascii ''foo-1''])
     = [ascii ''foo'', ascii ''foo'', ascii ''foo-1'']
   \<and> assigned_slugs identity_beyond (titled [ascii ''foo'', ascii ''foo'', ascii ''foo-1''])
     = map Some [ascii ''foo'', ascii ''foo-1'', ascii ''foo-1-1'']"
  by (rule titled_eval)
    (simp add: tabled_def tabled_unit_def ascii_def, simp add: ascii_def unit_eval, code_simp)

text \<open>
  C3, in the form that holds. Number the headings as the claim says: the first heading
  with a given base slug gets it unchanged, each later heading with that base slug gets
  the base slug, a hyphen and the number of earlier headings with it (1 for the first
  repeat, one more for each further repeat). The first \<open>n\<close> headings of a document are
  assigned these slugs exactly when none of their base slugs collides, that is, is
  another of their base slugs followed by a hyphen and a counter from 1 on that is
  below the number of occurrences of that other base slug among them.
\<close>

theorem repeats_are_numbered:
  "(take n (assigned_slugs X tree) = map Some (take n (number_repeats [] (base_slugs X tree)))
      \<longleftrightarrow> collision_free (take n (base_slugs X tree)))
   \<and> number_repeats [] (base_slugs X tree)
       = map (\<lambda>i. let k = count_list (take i (base_slugs X tree)) (base_slugs X tree ! i)
                  in if k = 0 then base_slugs X tree ! i
                     else base_slugs X tree ! i @ [45] @ number_to_string k)
           [0..<length (headings tree)]"
proof -
  let ?bs = "base_slugs X tree"
  have "take n (assigned_slugs X tree) = map Some (fst (slug_loops [] (take n ?bs)))"
    by (simp add: assigned_by_base take_map slug_loops_take)
  moreover have "take n (number_repeats [] ?bs) = number_repeats [] (take n ?bs)"
    by (rule number_repeats_take)
  ultimately have first: "take n (assigned_slugs X tree)
        = map Some (take n (number_repeats [] ?bs)) \<longleftrightarrow> collision_free (take n ?bs)"
    using numbering_iff [of "take n ?bs"] by (simp add: inj_map_eq_map)
  have len: "length ?bs = length (headings tree)"
    by (simp add: base_slugs_def heading_values_def)
  have "number_repeats [] ?bs
       = map (\<lambda>i. let k = count_list (take i ?bs) (?bs ! i)
                  in if k = 0 then ?bs ! i else ?bs ! i @ [45] @ number_to_string k)
           [0..<length (headings tree)]"
  proof (rule nth_equalityI)
    show "length (number_repeats [] ?bs)
        = length (map (\<lambda>i. let k = count_list (take i ?bs) (?bs ! i)
                  in if k = 0 then ?bs ! i else ?bs ! i @ [45] @ number_to_string k)
           [0..<length (headings tree)])"
      by (simp add: length_number_repeats len)
  next
    fix i
    assume "i < length (number_repeats [] ?bs)"
    then have i: "i < length ?bs" by (simp add: length_number_repeats)
    from number_repeats_nth [OF i, of "[]"] i
    show "number_repeats [] ?bs ! i
        = map (\<lambda>i. let k = count_list (take i ?bs) (?bs ! i)
                  in if k = 0 then ?bs ! i else ?bs ! i @ [45] @ number_to_string k)
           [0..<length (headings tree)] ! i"
      by (simp add: len Let_def)
  qed
  with first show ?thesis by (rule conjI)
qed

theorem repeats_are_numbered_witness:
  "collision_free
     (base_slugs identity_beyond
        (titled [ascii ''Vis'' @ [0xE3] @ ascii ''o Geral'', ascii ''Python 3'',
                 ascii ''Vis'' @ [0xE3] @ ascii ''o Geral'', ascii ''Python'', ascii ''Python'']))
   \<and> assigned_slugs identity_beyond
        (titled [ascii ''Vis'' @ [0xE3] @ ascii ''o Geral'', ascii ''Python 3'',
                 ascii ''Vis'' @ [0xE3] @ ascii ''o Geral'', ascii ''Python'', ascii ''Python''])
     = [Some (ascii ''visao-geral''), Some (ascii ''python-3''), Some (ascii ''visao-geral-1''),
        Some (ascii ''python''), Some (ascii ''python-1'')]"
proof -
  let ?doc = "titled [ascii ''Vis'' @ [0xE3] @ ascii ''o Geral'', ascii ''Python 3'',
                 ascii ''Vis'' @ [0xE3] @ ascii ''o Geral'', ascii ''Python'', ascii ''Python'']"
  let ?bs = "[ascii ''visao-geral'', ascii ''python-3'', ascii ''visao-geral'',
              ascii ''python'', ascii ''python'']"
  have "base_slugs identity_beyond ?doc = ?bs
        \<and> assigned_slugs identity_beyond ?doc
            = map Some [ascii ''visao-geral'', ascii ''python-3'', ascii ''visao-geral-1'',
                ascii ''python'', ascii ''python-1'']"
    by (rule titled_eval)
      (simp add: tabled_def tabled_unit_def ascii_def, simp add: ascii_def unit_eval, code_simp)
  then have b: "base_slugs identity_beyond ?doc = ?bs"
    and a: "assigned_slugs identity_beyond ?doc
            = map Some [ascii ''visao-geral'', ascii ''python-3'', ascii ''visao-geral-1'',
                ascii ''python'', ascii ''python-1'']"
    by simp_all
  have t: "take 5 (base_slugs identity_beyond ?doc) = base_slugs identity_beyond ?doc"
    unfolding b by simp
  have "collision_free ?bs" by code_simp
  then have h: "collision_free (base_slugs identity_beyond ?doc)" by (simp only: b)
  have n: "number_repeats [] ?bs
          = [ascii ''visao-geral'', ascii ''python-3'', ascii ''visao-geral-1'',
             ascii ''python'', ascii ''python-1'']"
    by code_simp
  have l: "length (assigned_slugs identity_beyond ?doc) = 5"
    unfolding a by simp
  from repeats_are_numbered [of 5 identity_beyond ?doc]
  have "take 5 (assigned_slugs identity_beyond ?doc)
          = map Some (take 5 (number_repeats [] (base_slugs identity_beyond ?doc)))
        \<longleftrightarrow> collision_free (take 5 (base_slugs identity_beyond ?doc))"
    by (rule conjunct1)
  with h have "take 5 (assigned_slugs identity_beyond ?doc)
          = map Some (take 5 (number_repeats [] (base_slugs identity_beyond ?doc)))"
    by (simp only: t)
  then have "assigned_slugs identity_beyond ?doc
          = map Some (take 5 (number_repeats [] ?bs))"
    using l by (simp only: b take_all [of "assigned_slugs identity_beyond ?doc" 5] order_refl)
  then have "assigned_slugs identity_beyond ?doc
          = [Some (ascii ''visao-geral''), Some (ascii ''python-3''),
             Some (ascii ''visao-geral-1''), Some (ascii ''python''), Some (ascii ''python-1'')]"
    unfolding n by simp
  with h show ?thesis by (rule conjI)
qed




text \<open>
  C5 does not hold as stated. The heading "Arquitetura *types-first*" has the text child
  "Arquitetura " and an emphasis child: its slug ends with a hyphen. The heading
  "a - b" gets three hyphens in a row.
\<close>

theorem untrimmed_hyphens_counterexample:
  "assigned_slugs identity_beyond
     (root_node [heading_node [text_node (ascii ''Arquitetura ''),
        Node ''emphasis'' None None () [text_node (ascii ''types-first'')]]])
     = [Some (ascii ''arquitetura-'')]
   \<and> assigned_slugs identity_beyond (titled [ascii ''a - b'']) = [Some (ascii ''a---b'')]"
proof -
  have "base_slugs identity_beyond
          (root_node [heading_node [text_node (ascii ''Arquitetura ''),
             Node ''emphasis'' None None () [text_node (ascii ''types-first'')]]])
          = [ascii ''arquitetura-'']
        \<and> assigned_slugs identity_beyond
          (root_node [heading_node [text_node (ascii ''Arquitetura ''),
             Node ''emphasis'' None None () [text_node (ascii ''types-first'')]]])
          = map Some [ascii ''arquitetura-'']"
    by (rule assigned_eval)
      (simp add: tree_eval, simp add: tree_eval unit_eval, code_simp)
  moreover have "base_slugs identity_beyond (titled [ascii ''a - b'']) = [ascii ''a---b'']
        \<and> assigned_slugs identity_beyond (titled [ascii ''a - b'']) = map Some [ascii ''a---b'']"
    by (rule assigned_eval)
      (simp add: tree_eval, simp add: tree_eval unit_eval, code_simp)
  ultimately show ?thesis by simp
qed

text \<open>
  C5, in the form that holds. For every heading, of any text: the base slug is the
  normalized text lower-cased, without the characters of the slugger's pattern, and with
  each space replaced by one hyphen; so it has no space, and one hyphen for each space and
  each hyphen that is left after the deletion: runs are not collapsed and nothing is
  trimmed. The assigned slug is the base slug or the base slug followed by a hyphen and
  a counter. When the text has only ASCII letters, digits, spaces, hyphens and
  underscores, nothing is deleted: the base slug is the text with each capital letter
  lower-cased and each space turned into a hyphen. When the text lies within the
  written-out tables (below U+0100, and the arrow U+2192), the base slug is made code
  unit by code unit, it has no upper-case ASCII letter and no character of the pattern,
  and it has exactly one hyphen for each space and each hyphen of the text.
\<close>

theorem spaces_become_hyphens:
  assumes "i < length (headings tree)"
  shows "base_slugs X tree ! i
           = map hyphenated (surviving_text X (heading_text (headings tree ! i)))
         \<and> 32 \<notin> set (base_slugs X tree ! i)
         \<and> count_list (base_slugs X tree ! i) 45
             = count_list (surviving_text X (heading_text (headings tree ! i))) 32
               + count_list (surviving_text X (heading_text (headings tree ! i))) 45
         \<and> (assigned_slugs X tree ! i = Some (base_slugs X tree ! i)
             \<or> (\<exists>n. 1 \<le> n \<and> assigned_slugs X tree ! i
                    = Some (base_slugs X tree ! i @ [45] @ number_to_string n)))
         \<and> (plain (heading_text (headings tree ! i)) \<longrightarrow>
              base_slugs X tree ! i
                = map (\<lambda>u. hyphenated (if ascii_capital u then u + 32 else u))
                    (heading_text (headings tree ! i)))
         \<and> (tabled (heading_text (headings tree ! i)) \<longrightarrow>
              base_slugs X tree ! i = concat (map unit_slug (heading_text (headings tree ! i)))
              \<and> list_all (\<lambda>u. \<not> ascii_capital u) (base_slugs X tree ! i)
              \<and> list_all (\<lambda>u. \<not> regex_unit u) (base_slugs X tree ! i)
              \<and> count_list (base_slugs X tree ! i) 45
                  = count_list (heading_text (headings tree ! i)) 32
                    + count_list (heading_text (headings tree ! i)) 45)"
proof -
  let ?t = "heading_text (headings tree ! i)"
  have b: "base_slugs X tree ! i = slug X (stripDiacritics X ?t)"
    using assms by (rule base_slugs_nth)
  have 1: "base_slugs X tree ! i = map hyphenated (surviving_text X ?t)"
    unfolding b by (rule base_surviving)
  have 2: "32 \<notin> set (base_slugs X tree ! i)"
    unfolding b by (rule slug_no_space)
  have 3: "count_list (base_slugs X tree ! i) 45
             = count_list (surviving_text X ?t) 32 + count_list (surviving_text X ?t) 45"
    unfolding 1 by (rule hyphenated_count)
  have 4: "assigned_slugs X tree ! i = Some (base_slugs X tree ! i)
        \<or> (\<exists>n. 1 \<le> n \<and> assigned_slugs X tree ! i
              = Some (base_slugs X tree ! i @ [45] @ number_to_string n))"
    using assms by (rule assigned_forms)
  have 5: "plain ?t \<longrightarrow>
      base_slugs X tree ! i = map (\<lambda>u. hyphenated (if ascii_capital u then u + 32 else u)) ?t"
    unfolding b by (simp add: base_plain)
  have 6: "tabled ?t \<longrightarrow>
      base_slugs X tree ! i = concat (map unit_slug ?t)
      \<and> list_all (\<lambda>u. \<not> ascii_capital u) (base_slugs X tree ! i)
      \<and> list_all (\<lambda>u. \<not> regex_unit u) (base_slugs X tree ! i)
      \<and> count_list (base_slugs X tree ! i) 45 = count_list ?t 32 + count_list ?t 45"
    unfolding b
    using base_tabled [of ?t X] base_lower_case [of ?t X] base_outside_pattern [of ?t X]
      base_hyphens [of ?t X]
    by blast
  from 1 2 3 4 5 6 show ?thesis by blast
qed

theorem spaces_become_hyphens_witness:
  "base_slugs identity_beyond
     (titled [ascii ''N'' @ [0xED] @ ascii ''vel 1: rotas '' @ [0x2192] @ ascii '' controller ''
                @ [0x2192] @ ascii '' model'', ascii ''Guia de Estilo '']) ! 0
     = ascii ''nivel-1-rotas--controller--model''
   \<and> count_list (ascii ''nivel-1-rotas--controller--model'') 45
       = count_list (ascii ''N'' @ [0xED] @ ascii ''vel 1: rotas '' @ [0x2192]
                       @ ascii '' controller '' @ [0x2192] @ ascii '' model'') 32
         + count_list (ascii ''N'' @ [0xED] @ ascii ''vel 1: rotas '' @ [0x2192]
                       @ ascii '' controller '' @ [0x2192] @ ascii '' model'') 45
   \<and> base_slugs identity_beyond
     (titled [ascii ''N'' @ [0xED] @ ascii ''vel 1: rotas '' @ [0x2192] @ ascii '' controller ''
                @ [0x2192] @ ascii '' model'', ascii ''Guia de Estilo '']) ! 1
     = map (\<lambda>u. hyphenated (if ascii_capital u then u + 32 else u)) (ascii ''Guia de Estilo '')"
proof -
  let ?t0 = "ascii ''N'' @ [0xED] @ ascii ''vel 1: rotas '' @ [0x2192] @ ascii '' controller ''
                @ [0x2192] @ ascii '' model''"
  let ?t1 = "ascii ''Guia de Estilo ''"
  let ?doc = "titled [?t0, ?t1]"
  have "base_slugs identity_beyond ?doc
          = [ascii ''nivel-1-rotas--controller--model'', ascii ''guia-de-estilo-'']
        \<and> assigned_slugs identity_beyond ?doc
            = map Some [ascii ''nivel-1-rotas--controller--model'', ascii ''guia-de-estilo-'']"
    by (rule titled_eval)
      (simp add: tabled_def tabled_unit_def ascii_def, simp add: ascii_def unit_eval, code_simp)
  then have b: "base_slugs identity_beyond ?doc
          = [ascii ''nivel-1-rotas--controller--model'', ascii ''guia-de-estilo-'']"
    by simp
  have h0: "0 < length (headings ?doc)" and h1: "1 < length (headings ?doc)"
    by (simp_all add: headings_titled)
  have t0: "heading_text (headings ?doc ! 0) = ?t0"
    and t1: "heading_text (headings ?doc ! 1) = ?t1"
    by (simp_all add: headings_titled heading_text_titled)
  have p0: "tabled ?t0" by (simp add: tabled_def tabled_unit_def ascii_def)
  have p1: "plain ?t1" by (simp add: plain_def plain_unit_def ascii_def)
  from spaces_become_hyphens [OF h0, of identity_beyond] p0
  have "count_list (base_slugs identity_beyond ?doc ! 0) 45
          = count_list ?t0 32 + count_list ?t0 45"
    unfolding t0 by blast
  then have c: "count_list (ascii ''nivel-1-rotas--controller--model'') 45
          = count_list ?t0 32 + count_list ?t0 45"
    unfolding b by simp
  from spaces_become_hyphens [OF h1, of identity_beyond] p1
  have d: "base_slugs identity_beyond ?doc ! 1
          = map (\<lambda>u. hyphenated (if ascii_capital u then u + 32 else u)) ?t1"
    unfolding t1 by blast
  have "base_slugs identity_beyond ?doc ! 0 = ascii ''nivel-1-rotas--controller--model''"
    unfolding b by simp
  with c d show ?thesis by blast
qed

text \<open>
  C6. The text of a heading is the in-order concatenation of the literal values of its
  direct children of type text or inlineCode; a child of any other type contributes
  nothing, whatever it contains; and each heading's slug comes from that text.
\<close>

theorem text_of_direct_children:
  "heading_text (Node t v d r cs) = direct_text cs
   \<and> (ntype c \<noteq> ''text'' \<and> ntype c \<noteq> ''inlineCode'' \<longrightarrow>
        heading_text (Node t v d r (cs1 @ c # cs2)) = heading_text (Node t v d r (cs1 @ cs2)))
   \<and> assigned_slugs X tree
       = map Some (fst (slug_each X new_Slugger
           (map (\<lambda>h. stripDiacritics X (direct_text (children h))) (headings tree))))"
proof -
  have "assigned_slugs X tree
       = map Some (fst (slug_each X new_Slugger
           (map (\<lambda>h. stripDiacritics X (direct_text (children h))) (headings tree))))"
    by (simp add: assigned_slugs_eq heading_values_def new_Slugger_def heading_text_direct)
  then show ?thesis
    by (simp add: heading_text_direct direct_text_append)
qed

theorem text_of_direct_children_witness:
  "heading_text (Node ''heading'' None None ()
      [text_node (ascii ''Ver ''),
       Node ''link'' None None () [text_node (ascii ''aqui'')],
       Node ''inlineCode'' (Some (ascii ''x'')) None () []])
     = ascii ''Ver x''"
proof -
  have "heading_text (Node ''heading'' None None ()
          ([text_node (ascii ''Ver '')] @ Node ''link'' None None () [text_node (ascii ''aqui'')]
            # [Node ''inlineCode'' (Some (ascii ''x'')) None () []]))
        = heading_text (Node ''heading'' None None ()
          ([text_node (ascii ''Ver '')] @ [Node ''inlineCode'' (Some (ascii ''x'')) None () []]))"
    using text_of_direct_children
      [where c = "Node ''link'' None None () [text_node (ascii ''aqui'')]"
         and ?cs1.0 = "[text_node (ascii ''Ver '')]"
         and ?cs2.0 = "[Node ''inlineCode'' (Some (ascii ''x'')) None () []]"
         and t = "''heading''" and v = None and d = None and r = "()" and cs = "[]"
         and X = identity_beyond and tree = "titled []"]
    by simp
  then show ?thesis by (simp add: heading_text_def text_node_def ascii_def)
qed

text \<open>
  C7. The tree after the pass has the shape of the tree before it, with the same type,
  value and other fields at every node and the same children in the same order; a node
  that is no heading keeps its data bag; a heading has an id under both
  \<^verbatim>\<open>data.id\<close> and \<^verbatim>\<open>data.hProperties.id\<close>, and the other keys of
  \<^verbatim>\<open>data\<close> and \<^verbatim>\<open>data.hProperties\<close> are the ones from before, none
  where the container had to be created. The id written at both places of a heading is
  the slug that the slugger returned for that heading, the headings taken in document
  order on one fresh slugger.
\<close>

theorem only_ids_are_written:
  "same_but_ids tree (remarkAsciiSlugs X tree)
   \<and> map node_id (headings (remarkAsciiSlugs X tree))
       = map Some (fst (slug_each X new_Slugger
           (map (\<lambda>h. stripDiacritics X (heading_text h)) (headings tree))))
   \<and> map node_hProperties_id (headings (remarkAsciiSlugs X tree))
       = map Some (fst (slug_each X new_Slugger
           (map (\<lambda>h. stripDiacritics X (heading_text h)) (headings tree))))"
proof -
  have "same_but_ids tree (remarkAsciiSlugs X tree)"
    by (simp add: remarkAsciiSlugs_def visit_frame)
  then show ?thesis
    using remark_traversed [of X tree]
    by (simp add: traversed_def Let_def new_Slugger_def)
qed

theorem only_ids_are_written_witness:
  "same_but_ids
     (root_node [Node ''heading'' None
        (Some \<lparr>data_id = None, hProperties = None, data_rest = [(''hName'', ())]\<rparr>) ()
        [text_node (ascii ''Um'')], heading_node []])
     (remarkAsciiSlugs identity_beyond
        (root_node [Node ''heading'' None
           (Some \<lparr>data_id = None, hProperties = None, data_rest = [(''hName'', ())]\<rparr>) ()
           [text_node (ascii ''Um'')], heading_node []]))
   \<and> map node_hProperties_id
       (headings (remarkAsciiSlugs identity_beyond
          (root_node [Node ''heading'' None
             (Some \<lparr>data_id = None, hProperties = None, data_rest = [(''hName'', ())]\<rparr>) ()
             [text_node (ascii ''Um'')], heading_node []])))
     = [Some (ascii ''um''), Some []]"
proof -
  let ?doc = "root_node [Node ''heading'' None
        (Some \<lparr>data_id = None, hProperties = None, data_rest = [(''hName'', ())]\<rparr>) ()
        [text_node (ascii ''Um'')], heading_node []]"
  have "base_slugs identity_beyond ?doc = [ascii ''um'', []]
        \<and> assigned_slugs identity_beyond ?doc = map Some [ascii ''um'', []]"
    by (rule assigned_eval)
      (simp add: tree_eval, simp add: tree_eval unit_eval, code_simp)
  then have a: "map node_id (headings (remarkAsciiSlugs identity_beyond ?doc))
                  = [Some (ascii ''um''), Some []]"
    by (simp add: assigned_slugs_def)
  from only_ids_are_written [of ?doc identity_beyond]
  have "same_but_ids ?doc (remarkAsciiSlugs identity_beyond ?doc)"
    and "map node_hProperties_id (headings (remarkAsciiSlugs identity_beyond ?doc))
          = map node_id (headings (remarkAsciiSlugs identity_beyond ?doc))"
    by simp_all
  then show ?thesis by (simp only: a)
qed

text \<open>
  C8 does not hold as stated. One document has the headings foo, foo and foo-1, another the
  single heading foo-1. The text foo-1 occurs for the first time at the third heading
  of the one and at the first heading of the other, and gets the slug foo-1-1 in the one
  and foo-1 in the other.
\<close>

theorem first_occurrence_counterexample:
  "heading_values identity_beyond (titled [ascii ''foo'', ascii ''foo'', ascii ''foo-1''])
     = [ascii ''foo'', ascii ''foo'', ascii ''foo-1'']
   \<and> assigned_slugs identity_beyond (titled [ascii ''foo'', ascii ''foo'', ascii ''foo-1'']) ! 2
     = Some (ascii ''foo-1-1'')
   \<and> assigned_slugs identity_beyond (titled [ascii ''foo-1'']) ! 0 = Some (ascii ''foo-1'')"
proof -
  have "heading_values identity_beyond (titled [ascii ''foo'', ascii ''foo'', ascii ''foo-1''])
          = map (\<lambda>t. concat (map strip_unit t)) [ascii ''foo'', ascii ''foo'', ascii ''foo-1'']"
    by (simp add: heading_values_def headings_titled heading_text_titled comp_def
        stripDiacritics_tabled tabled_def tabled_unit_def ascii_def)
  also have "\<dots> = [ascii ''foo'', ascii ''foo'', ascii ''foo-1'']"
    by (simp add: ascii_def strip_unit_def decompose_def canonical_decomposition_def
        combining_mark_def)
  finally have 1: "heading_values identity_beyond
      (titled [ascii ''foo'', ascii ''foo'', ascii ''foo-1''])
      = [ascii ''foo'', ascii ''foo'', ascii ''foo-1'']" .
  have "base_slugs identity_beyond (titled [ascii ''foo'', ascii ''foo'', ascii ''foo-1''])
          = [ascii ''foo'', ascii ''foo'', ascii ''foo-1'']
        \<and> assigned_slugs identity_beyond (titled [ascii ''foo'', ascii ''foo'', ascii ''foo-1''])
          = map Some [ascii ''foo'', ascii ''foo-1'', ascii ''foo-1-1'']"
    by (rule assigned_eval)
      (simp add: headings_titled heading_text_titled tree_eval,
       simp add: headings_titled heading_text_titled comp_def ascii_def unit_eval,
       code_simp)
  then have 2: "assigned_slugs identity_beyond
      (titled [ascii ''foo'', ascii ''foo'', ascii ''foo-1'']) ! 2 = Some (ascii ''foo-1-1'')"
    by simp
  have "base_slugs identity_beyond (titled [ascii ''foo-1'']) = [ascii ''foo-1'']
        \<and> assigned_slugs identity_beyond (titled [ascii ''foo-1'']) = map Some [ascii ''foo-1'']"
    by (rule assigned_eval)
      (simp add: headings_titled heading_text_titled tree_eval,
       simp add: headings_titled heading_text_titled comp_def ascii_def unit_eval,
       code_simp)
  then have 3: "assigned_slugs identity_beyond (titled [ascii ''foo-1'']) ! 0
      = Some (ascii ''foo-1'')"
    by simp
  from 1 2 3 show ?thesis by (intro conjI)
qed

text \<open>
  C8, in the form that holds. Each invocation starts from an empty registry, so what a heading gets
  depends on the headings before it in its own document only: a heading whose base slug
  has not been assigned to an earlier heading of its document gets the base slug
  unsuffixed. Two documents thus give the same unsuffixed slug to the same heading text
  wherever that holds in both, as at the first heading of every document.
\<close>

theorem registry_is_per_document:
  assumes "i < length (headings tree)" and "j < length (headings tree')"
    and "heading_text (headings tree ! i) = heading_text (headings tree' ! j)"
    and "Some (base_slugs X tree ! i) \<notin> set (take i (assigned_slugs X tree))"
    and "Some (base_slugs X tree' ! j) \<notin> set (take j (assigned_slugs X tree'))"
  shows "assigned_slugs X tree ! i = Some (base_slugs X tree ! i)
         \<and> assigned_slugs X tree' ! j = assigned_slugs X tree ! i"
proof -
  have "base_slugs X tree ! i = base_slugs X tree' ! j"
    using assms(1-3) by (simp add: base_slugs_nth)
  moreover have "assigned_slugs X tree ! i = Some (base_slugs X tree ! i)"
    using assigned_nth [OF assms(1), of X] assms(4) by blast
  moreover have "assigned_slugs X tree' ! j = Some (base_slugs X tree' ! j)"
    using assigned_nth [OF assms(2), of X] assms(5) by blast
  ultimately show ?thesis by simp
qed

theorem registry_is_per_document_witness:
  "assigned_slugs identity_beyond
     (titled [ascii ''Introdu'' @ [0xE7, 0xE3] @ ascii ''o'',
              ascii ''Introdu'' @ [0xE7, 0xE3] @ ascii ''o'']) ! 0 = Some (ascii ''introducao'')
   \<and> assigned_slugs identity_beyond
     (titled [ascii ''Resumo'', ascii ''Introdu'' @ [0xE7, 0xE3] @ ascii ''o'']) ! 1
       = Some (ascii ''introducao'')"
proof -
  let ?t = "ascii ''Introdu'' @ [0xE7, 0xE3] @ ascii ''o''"
  let ?a = "titled [?t, ?t]" and ?b = "titled [ascii ''Resumo'', ?t]"
  have a: "base_slugs identity_beyond ?a = [ascii ''introducao'', ascii ''introducao'']
        \<and> assigned_slugs identity_beyond ?a
          = map Some [ascii ''introducao'', ascii ''introducao-1'']"
    by (rule assigned_eval)
      (simp add: headings_titled heading_text_titled tree_eval,
       simp add: headings_titled heading_text_titled comp_def ascii_def unit_eval,
       code_simp)
  have b: "base_slugs identity_beyond ?b = [ascii ''resumo'', ascii ''introducao'']
        \<and> assigned_slugs identity_beyond ?b
          = map Some [ascii ''resumo'', ascii ''introducao'']"
    by (rule assigned_eval)
      (simp add: headings_titled heading_text_titled tree_eval,
       simp add: headings_titled heading_text_titled comp_def ascii_def unit_eval,
       code_simp)
  have 1: "0 < length (headings ?a)" and 2: "1 < length (headings ?b)"
    by (simp_all add: headings_titled)
  have 3: "heading_text (headings ?a ! 0) = heading_text (headings ?b ! 1)"
    by (simp add: headings_titled heading_text_titled)
  have 4: "Some (base_slugs identity_beyond ?a ! 0)
             \<notin> set (take 0 (assigned_slugs identity_beyond ?a))"
    by simp
  have 5: "Some (base_slugs identity_beyond ?b ! 1)
             \<notin> set (take 1 (assigned_slugs identity_beyond ?b))"
    unfolding conjunct1 [OF b] conjunct2 [OF b] by (simp add: ascii_def)
  from registry_is_per_document [OF 1 2 3 4 5] show ?thesis
    unfolding conjunct1 [OF a] by simp
qed

text \<open>
  C9 does not hold as stated. The sharp s (U+00DF) in the title Strasse, written with
  it, has no canonical decomposition and is a letter to the slugger: it is part of the
  slug. So are the ligature and the slashed o of the title Aero written with U+00C6 and
  U+00F8, the capital ligature lower-cased to U+00E6.
\<close>

theorem non_ascii_slug_counterexample:
  "assigned_slugs identity_beyond
     (titled [ascii ''Stra'' @ [0xDF] @ ascii ''e'', [0xC6] @ ascii ''r'' @ [0xF8]])
     = map Some [ascii ''stra'' @ [0xDF] @ ascii ''e'', [0xE6] @ ascii ''r'' @ [0xF8]]
   \<and> \<not> ascii_only (ascii ''stra'' @ [0xDF] @ ascii ''e'')
   \<and> \<not> ascii_only ([0xE6] @ ascii ''r'' @ [0xF8])"
proof -
  have "base_slugs identity_beyond
          (titled [ascii ''Stra'' @ [0xDF] @ ascii ''e'', [0xC6] @ ascii ''r'' @ [0xF8]])
          = [ascii ''stra'' @ [0xDF] @ ascii ''e'', [0xE6] @ ascii ''r'' @ [0xF8]]
        \<and> assigned_slugs identity_beyond
          (titled [ascii ''Stra'' @ [0xDF] @ ascii ''e'', [0xC6] @ ascii ''r'' @ [0xF8]])
          = map Some [ascii ''stra'' @ [0xDF] @ ascii ''e'', [0xE6] @ ascii ''r'' @ [0xF8]]"
    by (rule titled_eval)
      (simp add: tabled_def tabled_unit_def ascii_def, simp add: ascii_def unit_eval, code_simp)
  moreover have "\<not> ascii_only (ascii ''stra'' @ [0xDF] @ ascii ''e'')"
    by (simp add: ascii_only_def)
  moreover have "\<not> ascii_only ([0xE6] @ ascii ''r'' @ [0xF8])"
    by (simp add: ascii_only_def)
  ultimately show ?thesis by blast
qed

text \<open>
  C9, in the form that holds. Every heading is assigned a slug, and it consists of ASCII
  characters only exactly when what is left of the heading's text after normalization,
  lower-casing and the deletion of the slugger's pattern does. When the text lies within
  the written-out tables (below U+0100, and the arrow U+2192), that is exactly when the
  text has none of the twelve letters of \<open>undecomposed_letters\<close>; each of these letters
  that the text has is in the slug, lower-cased, and is not ASCII.
\<close>

theorem ascii_slug_iff_reducible:
  assumes "i < length (headings tree)"
  shows "\<exists>s. assigned_slugs X tree ! i = Some s
           \<and> (ascii_only s
                \<longleftrightarrow> ascii_only (surviving_text X (heading_text (headings tree ! i))))
           \<and> (tabled (heading_text (headings tree ! i)) \<longrightarrow>
                (ascii_only s \<longleftrightarrow> ascii_reducible (heading_text (headings tree ! i)))
                \<and> list_all (\<lambda>u. u \<in> set undecomposed_letters \<longrightarrow>
                               lower_unit u \<in> set s \<and> 128 \<le> lower_unit u)
                    (heading_text (headings tree ! i)))"
proof -
  let ?t = "heading_text (headings tree ! i)"
  have b: "base_slugs X tree ! i = slug X (stripDiacritics X ?t)"
    using assms by (rule base_slugs_nth)
  from assigned_ascii [OF assms, of X] obtain s
    where s: "assigned_slugs X tree ! i = Some s"
      and sub: "set (slug X (stripDiacritics X ?t)) \<subseteq> set s"
      and asc: "ascii_only s \<longleftrightarrow> ascii_only (slug X (stripDiacritics X ?t))"
    unfolding b by blast
  have 1: "ascii_only s \<longleftrightarrow> ascii_only (surviving_text X ?t)"
    unfolding asc base_surviving by (rule hyphenated_ascii)
  have 2: "(ascii_only s \<longleftrightarrow> ascii_reducible ?t)
      \<and> list_all (\<lambda>u. u \<in> set undecomposed_letters \<longrightarrow>
                               lower_unit u \<in> set s \<and> 128 \<le> lower_unit u) ?t"
    if t: "tabled ?t"
  proof
    show "ascii_only s \<longleftrightarrow> ascii_reducible ?t"
      unfolding asc using t by (rule base_ascii_iff)
    show "list_all (\<lambda>u. u \<in> set undecomposed_letters \<longrightarrow>
                               lower_unit u \<in> set s \<and> 128 \<le> lower_unit u) ?t"
      unfolding list_all_iff using kept_letter_in_base [OF t, of _ X] sub by blast
  qed
  from s 1 2 show ?thesis by blast
qed

theorem ascii_slug_iff_reducible_witness:
  "(\<exists>s. assigned_slugs identity_beyond
          (titled [ascii ''N'' @ [0xED] @ ascii ''vel 1: rotas '' @ [0x2192]
                     @ ascii '' controller '' @ [0x2192] @ ascii '' model'',
                   [0xC6] @ ascii ''r'' @ [0xF8]]) ! 0 = Some s
        \<and> ascii_only s)
   \<and> (\<exists>s. assigned_slugs identity_beyond
          (titled [ascii ''N'' @ [0xED] @ ascii ''vel 1: rotas '' @ [0x2192]
                     @ ascii '' controller '' @ [0x2192] @ ascii '' model'',
                   [0xC6] @ ascii ''r'' @ [0xF8]]) ! 1 = Some s
        \<and> \<not> ascii_only s \<and> 0xE6 \<in> set s \<and> 0xF8 \<in> set s)"
proof -
  let ?t0 = "ascii ''N'' @ [0xED] @ ascii ''vel 1: rotas '' @ [0x2192]
                     @ ascii '' controller '' @ [0x2192] @ ascii '' model''"
  let ?t1 = "[0xC6] @ ascii ''r'' @ [0xF8]"
  let ?doc = "titled [?t0, ?t1]"
  have h0: "0 < length (headings ?doc)" and h1: "1 < length (headings ?doc)"
    by (simp_all add: headings_titled)
  have t0: "heading_text (headings ?doc ! 0) = ?t0"
    and t1: "heading_text (headings ?doc ! 1) = ?t1"
    by (simp_all add: headings_titled heading_text_titled)
  have p0: "tabled ?t0" and p1: "tabled ?t1"
    by (simp_all add: tabled_def tabled_unit_def ascii_def)
  have r0: "ascii_reducible ?t0"
    by (simp add: ascii_reducible_def tabled_unit_def undecomposed_letters_def ascii_def)
  have r1: "\<not> ascii_reducible ?t1"
    by (simp add: ascii_reducible_def undecomposed_letters_def)
  have l: "lower_unit 0xC6 = 0xE6" "lower_unit 0xF8 = 0xF8"
    by (simp_all add: lower_unit_def)
  have u: "0xC6 \<in> set undecomposed_letters" "0xF8 \<in> set undecomposed_letters"
    by (simp_all add: undecomposed_letters_def)
  from ascii_slug_iff_reducible [OF h0, of identity_beyond] p0 r0
  have "\<exists>s. assigned_slugs identity_beyond ?doc ! 0 = Some s \<and> ascii_only s"
    unfolding t0 by blast
  moreover from ascii_slug_iff_reducible [OF h1, of identity_beyond] p1
  obtain s where s: "assigned_slugs identity_beyond ?doc ! 1 = Some s"
    and a: "ascii_only s \<longleftrightarrow> ascii_reducible ?t1"
    and k: "list_all (\<lambda>u. u \<in> set undecomposed_letters \<longrightarrow>
                               lower_unit u \<in> set s \<and> 128 \<le> lower_unit u) ?t1"
    unfolding t1 by blast
  from k u have "lower_unit 0xC6 \<in> set s" "lower_unit 0xF8 \<in> set s"
    by simp_all
  with l have "0xE6 \<in> set s" "0xF8 \<in> set s" by simp_all
  with s a r1 have "\<exists>s. assigned_slugs identity_beyond ?doc ! 1 = Some s
        \<and> \<not> ascii_only s \<and> 0xE6 \<in> set s \<and> 0xF8 \<in> set s"
    by blast
  ultimately show ?thesis by (rule conjI)
qed

text \<open>
  C10 does not hold as stated. A document with the three headings Secao, the second
  written with c cedilla (U+00E7) and a tilde (U+00E3) and the others without: the second
  and the third differ only by diacritics and are assigned secao-1 and secao-2, not secao
  and secao-1.
\<close>

theorem third_heading_counterexample:
  "base_slugs identity_beyond
     (titled [ascii ''Secao'', ascii ''Se'' @ [0xE7, 0xE3] @ ascii ''o'', ascii ''Secao''])
     = [ascii ''secao'', ascii ''secao'', ascii ''secao'']
   \<and> assigned_slugs identity_beyond
     (titled [ascii ''Secao'', ascii ''Se'' @ [0xE7, 0xE3] @ ascii ''o'', ascii ''Secao''])
     = map Some [ascii ''secao'', ascii ''secao-1'', ascii ''secao-2'']"
  by (rule titled_eval)
    (simp add: tabled_def tabled_unit_def ascii_def, simp add: ascii_def unit_eval, code_simp)

text \<open>
  C10, in the form that holds. Disambiguation is keyed on the base slug: the slugs of a
  document are determined by the base slugs of its headings, in order, and by nothing
  else of their texts. Two headings of a document whose texts are the same once the
  diacritics are stripped have the same base slug, and the later one is assigned that
  base slug followed by a hyphen and a counter from 1 on. The earlier is assigned the
  base slug and the later the base slug followed by -1 when the base slug has not been
  assigned before the earlier one, no heading between the two has that base slug, and
  the base slug followed by -1 has not been assigned before the later one.
\<close>

theorem keyed_on_base_slug:
  assumes "i < j" and "j < length (headings tree)"
    and "stripDiacritics X (heading_text (headings tree ! i))
           = stripDiacritics X (heading_text (headings tree ! j))"
  shows "(base_slugs X doc = base_slugs X doc' \<longrightarrow> assigned_slugs X doc = assigned_slugs X doc')
         \<and> base_slugs X tree ! j = base_slugs X tree ! i
         \<and> (\<exists>n. 1 \<le> n \<and> assigned_slugs X tree ! j
                  = Some (base_slugs X tree ! i @ [45] @ number_to_string n))
         \<and> (Some (base_slugs X tree ! i) \<notin> set (take i (assigned_slugs X tree))
              \<and> base_slugs X tree ! i \<notin> set (drop (Suc i) (take j (base_slugs X tree)))
              \<and> Some (base_slugs X tree ! i @ [45] @ number_to_string 1)
                  \<notin> set (take j (assigned_slugs X tree))
            \<longrightarrow> assigned_slugs X tree ! i = Some (base_slugs X tree ! i)
                \<and> assigned_slugs X tree ! j
                    = Some (base_slugs X tree ! i @ [45] @ number_to_string 1))"
proof -
  have i: "i < length (headings tree)" using assms(1,2) by simp
  have 1: "base_slugs X doc = base_slugs X doc' \<longrightarrow> assigned_slugs X doc = assigned_slugs X doc'"
    by (simp add: assigned_by_base)
  have 2: "base_slugs X tree ! j = base_slugs X tree ! i"
    by (simp add: base_slugs_nth [OF i] base_slugs_nth [OF assms(2)] assms(3))
  from assms(1,2) 2
  have 3: "\<exists>n. 1 \<le> n \<and> assigned_slugs X tree ! j
                  = Some (base_slugs X tree ! i @ [45] @ number_to_string n)"
    by (rule later_is_suffixed)
  from first_and_second_assigned [OF assms(1,2) 2]
  have 4: "Some (base_slugs X tree ! i) \<notin> set (take i (assigned_slugs X tree))
              \<and> base_slugs X tree ! i \<notin> set (drop (Suc i) (take j (base_slugs X tree)))
              \<and> Some (base_slugs X tree ! i @ [45] @ number_to_string 1)
                  \<notin> set (take j (assigned_slugs X tree))
            \<longrightarrow> assigned_slugs X tree ! i = Some (base_slugs X tree ! i)
                \<and> assigned_slugs X tree ! j
                    = Some (base_slugs X tree ! i @ [45] @ number_to_string 1)"
    by blast
  from 1 2 3 4 show ?thesis by blast
qed

theorem keyed_on_base_slug_witness:
  "ascii ''Se'' @ [0xE7, 0xE3] @ ascii ''o'' \<noteq> ascii ''Secao''
   \<and> assigned_slugs identity_beyond
       (titled [ascii ''Se'' @ [0xE7, 0xE3] @ ascii ''o'', ascii ''Secao'']) ! 0
       = Some (ascii ''secao'')
   \<and> assigned_slugs identity_beyond
       (titled [ascii ''Se'' @ [0xE7, 0xE3] @ ascii ''o'', ascii ''Secao'']) ! 1
       = Some (ascii ''secao-1'')
   \<and> assigned_slugs identity_beyond
       (titled [ascii ''Se'' @ [0xE7, 0xE3] @ ascii ''o'', ascii ''Secao''])
       = assigned_slugs identity_beyond (titled [ascii ''SECAO'', ascii ''secao''])"
proof -
  let ?s = "ascii ''Se'' @ [0xE7, 0xE3] @ ascii ''o''"
  let ?a = "titled [?s, ascii ''Secao'']" and ?b = "titled [ascii ''SECAO'', ascii ''secao'']"
  have d: "?s \<noteq> ascii ''Secao''" by (simp add: ascii_def)
  have j: "(0::nat) < 1" "1 < length (headings ?a)"
    by (simp_all add: headings_titled)
  have ts: "tabled ?s" "tabled (ascii ''Secao'')"
    by (simp_all add: tabled_def tabled_unit_def ascii_def)
  have "stripDiacritics identity_beyond ?s = stripDiacritics identity_beyond (ascii ''Secao'')"
    unfolding stripDiacritics_tabled [OF ts(1)] stripDiacritics_tabled [OF ts(2)]
    by (simp add: ascii_def strip_unit_def decompose_def canonical_decomposition_def
        combining_mark_def)
  then have e: "stripDiacritics identity_beyond (heading_text (headings ?a ! 0))
           = stripDiacritics identity_beyond (heading_text (headings ?a ! 1))"
    by (simp add: headings_titled heading_text_titled)
  have "base_slugs identity_beyond ?a = [ascii ''secao'', ascii ''secao'']
        \<and> assigned_slugs identity_beyond ?a = map Some [ascii ''secao'', ascii ''secao-1'']"
    by (rule titled_eval)
      (simp add: tabled_def tabled_unit_def ascii_def, simp add: ascii_def unit_eval, code_simp)
  then have ba: "base_slugs identity_beyond ?a = [ascii ''secao'', ascii ''secao'']"
    and aa: "assigned_slugs identity_beyond ?a = [Some (ascii ''secao''), Some (ascii ''secao-1'')]"
    by simp_all
  have bb: "base_slugs identity_beyond ?b = [ascii ''secao'', ascii ''secao'']"
    by (simp add: base_slugs_titled tabled_def tabled_unit_def ascii_def)
      (simp add: ascii_def unit_eval)
  have n: "number_to_string 1 = ascii ''1''" by code_simp
  have p: "Some (base_slugs identity_beyond ?a ! 0)
             \<notin> set (take 0 (assigned_slugs identity_beyond ?a))
           \<and> base_slugs identity_beyond ?a ! 0
               \<notin> set (drop (Suc 0) (take 1 (base_slugs identity_beyond ?a)))
           \<and> Some (base_slugs identity_beyond ?a ! 0 @ [45] @ number_to_string 1)
               \<notin> set (take 1 (assigned_slugs identity_beyond ?a))"
    unfolding ba aa n by (simp add: ascii_def)
  note k = keyed_on_base_slug [OF j e, where doc = ?a and doc' = ?b]
  from k p have "assigned_slugs identity_beyond ?a ! 0 = Some (base_slugs identity_beyond ?a ! 0)
      \<and> assigned_slugs identity_beyond ?a ! 1
          = Some (base_slugs identity_beyond ?a ! 0 @ [45] @ number_to_string 1)"
    by blast
  then have s: "assigned_slugs identity_beyond ?a ! 0 = Some (ascii ''secao'')
      \<and> assigned_slugs identity_beyond ?a ! 1 = Some (ascii ''secao-1'')"
    unfolding ba n by (simp add: ascii_def)
  have "base_slugs identity_beyond ?a = base_slugs identity_beyond ?b"
    by (simp only: ba bb)
  with k have "assigned_slugs identity_beyond ?a = assigned_slugs identity_beyond ?b"
    by blast
  with d s show ?thesis by blast
qed

end
